theory Spec2Isabelle
  imports Main "HOL-Library.AList"
begin

section \<open>Text and byte strings\<close>

text \<open>
  A Python \<open>str\<close> and a Python \<open>bytes\<close> value are both modelled as \<open>string\<close>
  (a list of 8-bit characters). For byte strings this is exact. For text it covers the
  ASCII documents and URLs; the character classes and \<open>lower\<close> below are the ASCII
  part of their Python counterparts.
\<close>

definition startswith :: "string \<Rightarrow> string \<Rightarrow> bool" where
  "startswith s p = (take (length p) s = p)"

text \<open>\<open>sub in s\<close> on strings: \<open>sub\<close> occurs as a contiguous slice of \<open>s\<close>.\<close>

fun py_in :: "string \<Rightarrow> string \<Rightarrow> bool" where
  "py_in sub [] = (sub = [])"
| "py_in sub (c # cs) = (startswith (c # cs) sub \<or> py_in sub cs)"

definition lower_char :: "char \<Rightarrow> char" where
  "lower_char c =
     (case map_of (zip ''ABCDEFGHIJKLMNOPQRSTUVWXYZ'' ''abcdefghijklmnopqrstuvwxyz'') c of
        Some d \<Rightarrow> d
      | None \<Rightarrow> c)"

definition lower :: "string \<Rightarrow> string" where
  "lower s = map lower_char s"

section \<open>Path names (\<open>os.path\<close>, POSIX flavour)\<close>

text \<open>\<open>os.path.basename(p)\<close>: what follows the last \<open>/\<close>.\<close>

definition basename :: "string \<Rightarrow> string" where
  "basename p = rev (takeWhile (\<lambda>c. c \<noteq> CHR ''/'') (rev p))"

text \<open>
  \<open>os.path.splitext(p)\<close>: the extension starts at the last dot of the last path
  component, unless only dots precede that dot in the component.
\<close>

definition splitext :: "string \<Rightarrow> string \<times> string" where
  "splitext p =
     (let name = basename p;
          after = rev (takeWhile (\<lambda>c. c \<noteq> CHR ''.'') (rev name));
          stem = take (length name - length after - 1) name
      in if CHR ''.'' \<in> set name \<and> (\<exists>c \<in> set stem. c \<noteq> CHR ''.'')
         then (take (length p - length after - 1) p, CHR ''.'' # after)
         else (p, []))"

section \<open>The name resolver\<close>

definition illegal_chars :: string where
  "illegal_chars = ''<>:'' @ [CHR 0x22] @ ''/'' @ [CHR 0x5C] @ ''|?*''"

definition image_exts :: "string list" where
  "image_exts = [''.jpg'', ''.jpeg'', ''.png'', ''.gif'', ''.bmp'', ''.webp'', ''.svg'']"

text \<open>
  \<open>sanitize_filename\<close>: the loop replaces each illegal character in turn
  (\<open>str.replace\<close> of a single character is a \<open>map\<close>), then a name over 100 characters
  is cut to 95 characters of its root plus its extension.
\<close>

definition sanitize_filename :: "string \<Rightarrow> string" where
  "sanitize_filename filename =
     (let f = fold (\<lambda>ch f. map (\<lambda>c. if c = ch then CHR ''_'' else c) f) illegal_chars filename
      in if length f > 100 then (case splitext f of (name, ext) \<Rightarrow> take 95 name @ ext) else f)"

text \<open>
  The library functions the resolver calls are parameters of the model:
  \<^item> \<open>md5_hexdigest url\<close> stands for \<open>hashlib.md5(url.encode()).hexdigest()\<close>;
  \<^item> \<open>unquoted_path url\<close> stands for \<open>unquote(urlparse(url).path)\<close>; it is \<open>None\<close>
    where \<open>urlparse\<close> raises \<open>ValueError\<close> (an unbalanced IPv6 bracket in the host).
\<close>

record urllib =
  md5_hexdigest :: "string \<Rightarrow> string"
  unquoted_path :: "string \<Rightarrow> string option"

text \<open>
  \<open>get_image_extension\<close>. The content type is \<open>None\<close> or a string; \<open>if content_type\<close>
  is false for \<open>None\<close> and for the empty string.
\<close>

definition get_image_extension :: "urllib \<Rightarrow> string \<Rightarrow> string option \<Rightarrow> string option" where
  "get_image_extension L url content_type =
     (case unquoted_path L url of
        None \<Rightarrow> None
      | Some path \<Rightarrow>
          (case splitext path of (_, ext) \<Rightarrow>
             if lower ext \<in> set image_exts then Some (lower ext)
             else (case content_type of
                     None \<Rightarrow> Some ''.jpg''
                   | Some ct \<Rightarrow>
                       if ct = [] then Some ''.jpg''
                       else if py_in ''jpeg'' ct \<or> py_in ''jpg'' ct then Some ''.jpg''
                       else if py_in ''png'' ct then Some ''.png''
                       else if py_in ''gif'' ct then Some ''.gif''
                       else if py_in ''webp'' ct then Some ''.webp''
                       else if py_in ''svg'' ct then Some ''.svg''
                       else Some ''.jpg'')))"

text \<open>
  \<open>generate_filename\<close>; \<open>None\<close> is the \<open>ValueError\<close> of \<open>urlparse\<close>. The hash is
  computed first, then the path is parsed.
\<close>

definition generate_filename :: "urllib \<Rightarrow> string \<Rightarrow> string option \<Rightarrow> string option" where
  "generate_filename L url content_type =
     (let url_hash = take 12 (md5_hexdigest L url)
      in case unquoted_path L url of
           None \<Rightarrow> None
         | Some path \<Rightarrow>
             (let original_name = basename path;
                  fallback =
                    (case get_image_extension L url content_type of
                       None \<Rightarrow> None
                     | Some ext \<Rightarrow> Some (''image_'' @ url_hash @ ext))
              in if original_name \<noteq> [] \<and> CHR ''.'' \<in> set original_name
                 then (case splitext original_name of (name0, ext) \<Rightarrow>
                         (let name = take 20 (sanitize_filename name0)
                          in if lower ext \<in> set image_exts
                             then Some (name @ ''_'' @ url_hash @ lower ext)
                             else fallback))
                 else fallback))"

definition hex_digits :: "char set" where
  "hex_digits = set ''0123456789abcdef''"


section \<open>Regular expressions\<close>

text \<open>
  The four patterns of the program are sequences of single characters and of greedy
  repetitions of one character class. \<open>rx\<close> is the backtracking matcher of Python's
  \<open>re\<close> on such sequences, anchored at the start of the text: a repetition first takes
  as many characters as its class allows and gives them back one at a time while the
  rest of the pattern fails. The result is the text each item consumed, and what is left.
\<close>

definition word_chars :: string where
  "word_chars = ''abcdefghijklmnopqrstuvwxyzABCDEFGHIJKLMNOPQRSTUVWXYZ0123456789_''"

datatype cclass = Only string | Except string | Word

fun in_class :: "cclass \<Rightarrow> char \<Rightarrow> bool" where
  "in_class (Only cs) c = (c \<in> set cs)"
| "in_class (Except cs) c = (c \<notin> set cs)"
| "in_class Word c = (c \<in> set word_chars)"

datatype item = One cclass | Many cclass nat

fun first_some :: "(nat \<Rightarrow> 'a option) \<Rightarrow> nat list \<Rightarrow> 'a option" where
  "first_some f [] = None"
| "first_some f (j # js) = (case f j of Some x \<Rightarrow> Some x | None \<Rightarrow> first_some f js)"

fun rx :: "item list \<Rightarrow> string \<Rightarrow> (string list \<times> string) option" where
  "rx [] s = Some ([], s)"
| "rx (One k # r) s =
     (case s of
        [] \<Rightarrow> None
      | c # cs \<Rightarrow>
          if in_class k c
          then map_option (\<lambda>(segs, rest). ([c] # segs, rest)) (rx r cs)
          else None)"
| "rx (Many k n # r) s =
     (let m = length (takeWhile (in_class k) s)
      in first_some
           (\<lambda>j. map_option (\<lambda>(segs, rest). (take j s # segs, rest)) (rx r (drop j s)))
           (rev [n..<Suc m]))"

text \<open>A literal piece of a pattern (also what \<open>re.escape\<close> makes of a string).\<close>

definition lit :: "string \<Rightarrow> item list" where
  "lit s = map (\<lambda>c. One (Only [c])) s"

text \<open>
  \<open>re.findall\<close>: the matches from left to right, each search starting where the
  previous match ended. After a match that consumed nothing the search moves on by one
  character (no pattern of the program can match the empty text).
\<close>

function findall :: "item list \<Rightarrow> string \<Rightarrow> string list list" where
  "findall re s =
     (case rx re s of
        Some (segs, rest) \<Rightarrow>
          if length rest < length s then segs # findall re rest
          else segs # (case s of [] \<Rightarrow> [] | _ # t \<Rightarrow> findall re t)
      | None \<Rightarrow> (case s of [] \<Rightarrow> [] | _ # t \<Rightarrow> findall re t))"
  by pat_completeness auto
termination
  by (relation "measure (\<lambda>(re, s). length s)") auto

text \<open>\<open>re.search\<close>: the match at the first position that has one.\<close>

fun search :: "item list \<Rightarrow> string \<Rightarrow> string list option" where
  "search re [] = map_option fst (rx re [])"
| "search re (c # cs) =
     (case rx re (c # cs) of Some (segs, _) \<Rightarrow> Some segs | None \<Rightarrow> search re cs)"

definition quotes :: string where
  "quotes = [CHR 0x22, CHR 0x27]"

definition quotes_gt :: string where
  "quotes_gt = [CHR 0x22, CHR 0x27, CHR ''>'']"

text \<open>\<open>!\[([^\]]*)\]\(([^\)]+)\)\<close>: the alt text is item 2, the URL item 5.\<close>

definition pattern1 :: "item list" where
  "pattern1 = lit ''!['' @ [Many (Except '']'') 0] @ lit '']('' @ [Many (Except '')'') 1] @ lit '')''"

text \<open>\<open><img[^>]+src=["\']([^"\'>]+)["\'][^>]*>\<close>: the URL is item 10.\<close>

definition pattern2 :: "item list" where
  "pattern2 = lit ''<img'' @ [Many (Except ''>'') 1] @ lit ''src='' @ [One (Only quotes)]
              @ [Many (Except quotes_gt) 1] @ [One (Only quotes), Many (Except ''>'') 0] @ lit ''>''"

text \<open>\<open>'<img[^>]+src=["\']' + re.escape(url) + '["\'][^>]*>'\<close>.\<close>

definition img_tag_pattern :: "string \<Rightarrow> item list" where
  "img_tag_pattern url = lit ''<img'' @ [Many (Except ''>'') 1] @ lit ''src='' @ [One (Only quotes)]
              @ lit url @ [One (Only quotes), Many (Except ''>'') 0] @ lit ''>''"

text \<open>\<open>(\w+)=["\']([^"\'>]+)["\']\<close>: the attribute name is item 0, its value item 3.\<close>

definition attr_pattern :: "item list" where
  "attr_pattern = [Many Word 1] @ lit ''='' @ [One (Only quotes), Many (Except quotes_gt) 1, One (Only quotes)]"

section \<open>The reference extractor\<close>

definition is_remote :: "string \<Rightarrow> bool" where
  "is_remote url = (startswith url ''http://'' \<or> startswith url ''https://'')"

definition extract_image_urls :: "string \<Rightarrow> (string \<times> string) list" where
  "extract_image_urls content =
     (let matches1 = map (\<lambda>segs. (segs ! 2, segs ! 5)) (findall pattern1 content);
          urls1 = map (\<lambda>(alt, url). (url, ''!['' @ alt @ '']('' @ url @ '')''))
                      (filter (\<lambda>(alt, url). is_remote url) matches1);
          matches2 = map (\<lambda>segs. segs ! 10) (findall pattern2 content);
          urls2 = concat (map (\<lambda>url.
                     if is_remote url
                     then (case search (img_tag_pattern url) content of
                             Some segs \<Rightarrow> [(url, concat segs)]
                           | None \<Rightarrow> [])
                     else []) matches2)
      in urls1 @ urls2)"

section \<open>The rewriter\<close>

text \<open>\<open>s.replace(old, new)\<close>: every occurrence, from the left, without overlap.\<close>

function replace_from :: "string \<Rightarrow> string \<Rightarrow> string \<Rightarrow> string" where
  "replace_from old new s =
     (if s = [] then []
      else if old \<noteq> [] \<and> startswith s old then new @ replace_from old new (drop (length old) s)
      else hd s # replace_from old new (tl s))"
  by pat_completeness auto
termination
  by (relation "measure (\<lambda>(old, new, s). length s)") auto

definition str_replace :: "string \<Rightarrow> string \<Rightarrow> string \<Rightarrow> string" where
  "str_replace s old new =
     (if old = [] then new @ concat (map (\<lambda>c. c # new) s) else replace_from old new s)"

text \<open>\<open>sep.join(xs)\<close>.\<close>

fun join :: "string \<Rightarrow> string list \<Rightarrow> string" where
  "join sep [] = []"
| "join sep [x] = x"
| "join sep (x # y # ys) = x @ sep @ join sep (y # ys)"

text \<open>
  A \<open>dict\<close> is an association list in insertion order: storing under a key that is
  present replaces its value in place, a new key goes to the end.
\<close>

definition dict :: "(string \<times> string) list \<Rightarrow> (string \<times> string) list" where
  "dict pairs = fold (\<lambda>(k, v) d. AList.update k v d) pairs []"

text \<open>The text that takes the place of \<open>original_text\<close>; \<open>None\<close> where nothing is replaced.\<close>

definition new_text :: "string \<Rightarrow> string \<Rightarrow> string option" where
  "new_text original_text local_path =
     (if startswith original_text ''![''
      then (case rx pattern1 original_text of
              Some (segs, _) \<Rightarrow> Some (''!['' @ segs ! 2 @ '']('' @ local_path @ '')'')
            | None \<Rightarrow> None)
      else
        (let img_attrs = map (\<lambda>segs. (segs ! 0, segs ! 3)) (findall attr_pattern original_text);
             attrs_dict = dict img_attrs;
             new_attrs = (''src='' @ [CHR 0x22] @ local_path @ [CHR 0x22])
                         # map (\<lambda>(attr, val). attr @ ''='' @ [CHR 0x22] @ val @ [CHR 0x22])
                               (filter (\<lambda>(attr, val). lower attr \<noteq> ''src'') attrs_dict)
         in Some (''<img '' @ join '' '' new_attrs @ ''>'')))"

definition rewrite :: "(string \<times> string) list \<Rightarrow> string \<Rightarrow> string" where
  "rewrite url_replacements content =
     fold (\<lambda>(original_text, local_path) updated.
             case new_text original_text local_path of
               Some t \<Rightarrow> str_replace updated original_text t
             | None \<Rightarrow> updated)
          url_replacements content"

section \<open>The size-reduction step\<close>

text \<open>
  The imaging library (Pillow) is a parameter of the model, over an abstract type of
  decoded images:
  \<^item> \<open>image_open d\<close> stands for \<open>Image.open(io.BytesIO(d))\<close>, \<open>None\<close> where it raises;
  \<^item> \<open>is_rgba img\<close> for \<open>img.mode == 'RGBA'\<close>;
  \<^item> \<open>flatten_white img\<close> for the paste of \<open>img\<close> onto a white RGB background;
  \<^item> \<open>save_jpeg img q\<close> for the bytes of \<open>img.save(output, format='JPEG', quality=q,
    optimize=True)\<close>, \<open>None\<close> where it raises (Pillow refuses to write some modes, such
    as palette images, as JPEG).
\<close>

record 'img pillow =
  image_open :: "string \<Rightarrow> 'img option"
  is_rgba :: "'img \<Rightarrow> bool"
  flatten_white :: "'img \<Rightarrow> 'img"
  save_jpeg :: "'img \<Rightarrow> int \<Rightarrow> string option"

text \<open>\<open>range(start, stop, step)\<close> as a list; the program uses a negative step.\<close>

function py_range :: "int \<Rightarrow> int \<Rightarrow> int \<Rightarrow> int list" where
  "py_range start stop step =
     (if step < 0 \<and> stop < start then start # py_range (start + step) stop step
      else if 0 < step \<and> start < stop then start # py_range (start + step) stop step
      else [])"
  by pat_completeness auto
termination
  by (relation "measure (\<lambda>(start, stop, step). nat (if step < 0 then start - stop else stop - start))") auto

text \<open>
  The \<open>for quality in range(85, 20, -5)\<close> loop: it ends by a \<open>return\<close> of the first
  encoding within the budget, by an exception of \<open>save\<close>, or by running out of levels.
\<close>

datatype loop_end = Fits string | Raised | Exhausted

fun quality_loop :: "'img pillow \<Rightarrow> 'img \<Rightarrow> int \<Rightarrow> int list \<Rightarrow> loop_end" where
  "quality_loop P img budget [] = Exhausted"
| "quality_loop P img budget (quality # qs) =
     (case save_jpeg P img quality of
        None \<Rightarrow> Raised
      | Some compressed_data \<Rightarrow>
          if int (length compressed_data) \<le> budget then Fits compressed_data
          else quality_loop P img budget qs)"

definition compress_image :: "'img pillow \<Rightarrow> string \<Rightarrow> int \<Rightarrow> string" where
  "compress_image P image_data max_size_kb =
     (if int (length image_data) \<le> max_size_kb * 1024 then image_data
      else (case image_open P image_data of
              None \<Rightarrow> image_data
            | Some img0 \<Rightarrow>
                (let img = (if is_rgba P img0 then flatten_white P img0 else img0)
                 in case quality_loop P img (max_size_kb * 1024) (py_range 85 20 (- 5)) of
                      Fits compressed_data \<Rightarrow> compressed_data
                    | Raised \<Rightarrow> image_data
                    | Exhausted \<Rightarrow>
                        (case save_jpeg P img 20 of
                           None \<Rightarrow> image_data
                         | Some d \<Rightarrow> d))))"

section \<open>The world: file system, network, and what was done\<close>

text \<open>
  A path is the list of its components. The file system holds regular files and
  directories (the root \<open>[]\<close> is a directory); permissions and links are not modelled.
  The network answers each request to a URL with the next response queued for that URL
  (none left: the connection fails). The trace records, in the order in which they
  happen: the sleeps as they begin (in milliseconds), the requests, the writes, the
  coordinator's \<open>images_folder.mkdir(exist_ok=True)\<close> when it has returned, and the
  tasks as they are handed to the worker pool.
\<close>

type_synonym path = "string list"

datatype response = ConnError | Reply nat string string

datatype event = Sleep nat | Get string | Written path | Mkdir path | Submit string path

record world =
  files :: "path \<rightharpoonup> string"
  dirs :: "path set"
  net :: "string \<Rightarrow> response list"
  trace :: "event list"

definition path_exists :: "world \<Rightarrow> path \<Rightarrow> bool" where
  "path_exists w p = (p \<in> dom (files w) \<or> p \<in> dirs w \<or> p = [])"

definition is_dir :: "world \<Rightarrow> path \<Rightarrow> bool" where
  "is_dir w p = (p = [] \<or> p \<in> dirs w)"

text \<open>\<open>p.mkdir(exist_ok=True)\<close>; \<open>None\<close> is \<open>FileExistsError\<close> or \<open>FileNotFoundError\<close>.\<close>

definition mkdir_exist_ok :: "world \<Rightarrow> path \<Rightarrow> world option" where
  "mkdir_exist_ok w p =
     (if is_dir w p then Some w
      else if p \<in> dom (files w) then None
      else if is_dir w (butlast p) \<and> butlast p \<notin> dom (files w)
      then Some (w\<lparr>dirs := insert p (dirs w)\<rparr>)
      else None)"

text \<open>\<open>p.mkdir(parents=True, exist_ok=True)\<close>: fails where a regular file is in the way.\<close>

definition ancestors :: "path \<Rightarrow> path list" where
  "ancestors p = map (\<lambda>n. take n p) [1..<Suc (length p)]"

definition mkdir_parents :: "world \<Rightarrow> path \<Rightarrow> world option" where
  "mkdir_parents w p =
     (if list_ex (\<lambda>q. q \<in> dom (files w)) (ancestors p) then None
      else Some (w\<lparr>dirs := dirs w \<union> set (ancestors p)\<rparr>))"

text \<open>\<open>open(p, 'wb')\<close> and \<open>f.write(data)\<close>; \<open>None\<close> is the \<open>OSError\<close> of \<open>open\<close>.\<close>

definition write_file :: "world \<Rightarrow> path \<Rightarrow> string \<Rightarrow> world option" where
  "write_file w p data =
     (if p = [] \<or> p \<in> dirs w \<or> \<not> is_dir w (butlast p) \<or> butlast p \<in> dom (files w) then None
      else Some (w\<lparr>files := (files w)(p \<mapsto> data), trace := trace w @ [Written p]\<rparr>))"

text \<open>\<open>time.sleep\<close>, and \<open>session.get\<close> followed by \<open>raise_for_status\<close> and \<open>.content\<close>.\<close>

definition sleep :: "nat \<Rightarrow> world \<Rightarrow> world" where
  "sleep ms w = w\<lparr>trace := trace w @ [Sleep ms]\<rparr>"

definition http_get :: "world \<Rightarrow> string \<Rightarrow> response \<times> world" where
  "http_get w url =
     (case net w url of
        [] \<Rightarrow> (ConnError, w\<lparr>trace := trace w @ [Get url]\<rparr>)
      | r # rs \<Rightarrow> (r, w\<lparr>net := (net w)(url := rs), trace := trace w @ [Get url]\<rparr>))"

section \<open>The fetcher\<close>

text \<open>
  The \<open>try\<close> block of \<open>download_image\<close>: one attempt. \<open>True\<close> is its \<open>return True\<close>
  (the file was there, or was written), \<open>False\<close> that it raised.
\<close>

definition attempt :: "'img pillow \<Rightarrow> world \<Rightarrow> string \<Rightarrow> path \<Rightarrow> bool \<times> world" where
  "attempt P w url save_path =
     (if path_exists w save_path then (True, w)
      else (case http_get (sleep 500 w) url of
              (ConnError, w1) \<Rightarrow> (False, w1)
            | (Reply status image_data content_type, w1) \<Rightarrow>
                if 400 \<le> status \<and> status < 600 then (False, w1)
                else if length image_data < 100 then (False, w1)
                else
                  (let data = (if \<not> py_in ''svg'' (lower content_type)
                               then compress_image P image_data 500 else image_data)
                   in case mkdir_parents w1 (butlast save_path) of
                        None \<Rightarrow> (False, w1)
                      | Some w2 \<Rightarrow>
                          (case write_file w2 save_path data of
                             None \<Rightarrow> (False, w2)
                           | Some w3 \<Rightarrow> (True, w3)))))"

text \<open>
  \<open>download_image\<close> with its \<open>except\<close> branch: on a failed attempt with
  \<open>retries < max_retries\<close> it sleeps \<open>2 ** retries\<close> seconds and calls itself with
  \<open>retries + 1\<close>. The counter is a natural number: the program starts it at 0.
\<close>

function download_image ::
  "'img pillow \<Rightarrow> int \<Rightarrow> world \<Rightarrow> string \<Rightarrow> path \<Rightarrow> nat \<Rightarrow> bool \<times> world" where
  "download_image P max_retries w url save_path retries =
     (case attempt P w url save_path of
        (True, w1) \<Rightarrow> (True, w1)
      | (False, w1) \<Rightarrow>
          if int retries < max_retries
          then download_image P max_retries (sleep (1000 * 2 ^ retries) w1) url save_path (retries + 1)
          else (False, w1))"
  by pat_completeness auto
termination
  by (relation "measure (\<lambda>(P, max_retries, w, url, save_path, retries). nat (max_retries - int retries))") auto

text \<open>What a failed try with counter \<open>i\<close> that is retried leaves in the trace.\<close>

definition failed_try :: "string \<Rightarrow> nat \<Rightarrow> event list" where
  "failed_try url i = [Sleep 500, Get url, Sleep (1000 * 2 ^ i)]"

fun is_get :: "event \<Rightarrow> bool" where
  "is_get (Get _) = True"
| "is_get _ = False"

section \<open>The worker pool\<close>

text \<open>
  A task is a submitted call \<open>download_image(url, local_path)\<close>, kept with the
  reference's \<open>original_text\<close> as in \<open>future_to_url\<close>.
\<close>

type_synonym task = "string \<times> string \<times> path"

text \<open>
  The threads of \<open>ThreadPoolExecutor\<close> run their calls of \<open>download_image\<close> at the same
  time, so the calls are cut into the steps between which another thread can act on
  the file system or the network. A call is in one of these phases:
  \<^item> \<open>Queued\<close>: submitted, no thread has taken it yet;
  \<^item> \<open>Checking retries\<close>: at \<open>if save_path.exists()\<close>;
  \<^item> \<open>Sleeping retries\<close>: at \<open>time.sleep(0.5)\<close>;
  \<^item> \<open>Getting retries\<close>: at \<open>self.session.get\<close> (with the checks and the size reduction
    that follow it, which touch nothing shared);
  \<^item> \<open>Making retries data\<close>: at \<open>save_path.parent.mkdir\<close>, the bytes to store in hand;
  \<^item> \<open>Writing retries data\<close>: at \<open>open(save_path, 'wb')\<close> and \<open>f.write\<close>;
  \<^item> \<open>Finished success\<close>: returned.

  No step takes a lock: \<open>self.download_lock\<close> is made in \<open>__init__\<close> and never acquired.
\<close>

datatype phase =
  Queued | Checking nat | Sleeping nat | Getting nat | Making nat string | Writing nat string
  | Finished bool

text \<open>
  The \<open>except\<close> branch, entered from the step that raised: with \<open>retries < max_retries\<close>
  the backoff sleep begins and the call goes on as \<open>download_image(url, save_path,
  retries + 1)\<close>; otherwise it returns \<open>False\<close>.
\<close>

definition failed :: "int \<Rightarrow> nat \<Rightarrow> world \<Rightarrow> phase \<times> world" where
  "failed max_retries retries w =
     (if int retries < max_retries then (Checking (retries + 1), sleep (1000 * 2 ^ retries) w)
      else (Finished False, w))"

fun task_step :: "'img pillow \<Rightarrow> int \<Rightarrow> string \<Rightarrow> path \<Rightarrow> phase \<Rightarrow> world \<Rightarrow> phase \<times> world" where
  "task_step P max_retries url save_path Queued w = (Checking 0, w)"
| "task_step P max_retries url save_path (Checking retries) w =
     (if path_exists w save_path then (Finished True, w) else (Sleeping retries, w))"
| "task_step P max_retries url save_path (Sleeping retries) w = (Getting retries, sleep 500 w)"
| "task_step P max_retries url save_path (Getting retries) w =
     (case http_get w url of
        (ConnError, w1) \<Rightarrow> failed max_retries retries w1
      | (Reply status image_data content_type, w1) \<Rightarrow>
          if 400 \<le> status \<and> status < 600 then failed max_retries retries w1
          else if length image_data < 100 then failed max_retries retries w1
          else (Making retries (if \<not> py_in ''svg'' (lower content_type)
                                then compress_image P image_data 500 else image_data), w1))"
| "task_step P max_retries url save_path (Making retries data) w =
     (case mkdir_parents w (butlast save_path) of
        None \<Rightarrow> failed max_retries retries w
      | Some w1 \<Rightarrow> (Writing retries data, w1))"
| "task_step P max_retries url save_path (Writing retries data) w =
     (case write_file w save_path data of
        None \<Rightarrow> failed max_retries retries (w :: world)
      | Some w1 \<Rightarrow> (Finished True, w1))"
| "task_step P max_retries url save_path (Finished success) w = (Finished success, w)"

text \<open>What is left of a call, run without another thread in between.\<close>

fun steps_left :: "int \<Rightarrow> phase \<Rightarrow> nat" where
  "steps_left max_retries Queued = 7 * nat max_retries + 6"
| "steps_left max_retries (Checking retries) = 7 * nat (max_retries - int retries) + 5"
| "steps_left max_retries (Sleeping retries) = 7 * nat (max_retries - int retries) + 4"
| "steps_left max_retries (Getting retries) = 7 * nat (max_retries - int retries) + 3"
| "steps_left max_retries (Making retries data) = 7 * nat (max_retries - int retries) + 2"
| "steps_left max_retries (Writing retries data) = 7 * nat (max_retries - int retries) + 1"
| "steps_left max_retries (Finished success) = 0"

function finish ::
  "'img pillow \<Rightarrow> int \<Rightarrow> string \<Rightarrow> path \<Rightarrow> phase \<Rightarrow> world \<Rightarrow> bool \<times> world" where
  "finish P max_retries url save_path ph w =
     (case ph of
        Finished success \<Rightarrow> (success, w)
      | _ \<Rightarrow> (case task_step P max_retries url save_path ph w of
                (ph', w') \<Rightarrow> finish P max_retries url save_path ph' w'))"
  by pat_completeness auto
termination
proof (relation "measure (\<lambda>(P, max_retries, url, save_path, ph, w). steps_left max_retries ph)")
  show "wf (measure (\<lambda>(P, max_retries, url, save_path, ph, w). steps_left max_retries ph))"
    by simp
qed (auto simp: failed_def split: if_splits prod.splits response.splits option.splits)

text \<open>
  The pool holds the phase of every task submitted so far, and the world. An entry \<open>i\<close>
  of a schedule lets task \<open>i\<close> take its next step; the entry that names the first task
  not yet submitted lets the coordinator's loop submit it (\<open>executor.submit\<close>); every
  other entry does nothing. A queued task is taken by a thread only when all the tasks
  before it have been taken (the work queue is first-in, first-out) and fewer than
  \<open>max_workers\<close> calls are under way.
\<close>

fun under_way :: "phase \<Rightarrow> bool" where
  "under_way Queued = False"
| "under_way (Finished success) = False"
| "under_way _ = True"

definition pool_step ::
  "'img pillow \<Rightarrow> int \<Rightarrow> int \<Rightarrow> task list \<Rightarrow> nat \<Rightarrow> phase list \<times> world \<Rightarrow> phase list \<times> world" where
  "pool_step P max_retries max_workers tasks i pool =
     (case pool of (phs, w) \<Rightarrow>
        if i < length phs \<and> i < length tasks then
          (case tasks ! i of (url, original_text, local_path) \<Rightarrow>
             if phs ! i = Queued
                \<and> (Queued \<in> set (take i phs) \<or> max_workers \<le> int (length (filter under_way phs)))
             then (phs, w)
             else (case task_step P max_retries url local_path (phs ! i) w of
                     (ph', w') \<Rightarrow> (phs[i := ph'], w')))
        else if i = length phs \<and> i < length tasks then
          (case tasks ! i of (url, original_text, local_path) \<Rightarrow>
             (phs @ [Queued], w\<lparr>trace := trace w @ [Submit url local_path]\<rparr>))
        else (phs, w))"

text \<open>
  When the schedule is used up, what is left is run in the order of submission: the
  tasks not yet submitted are submitted, then each call is run to its end. (The \<open>with\<close>
  block returns only when every submitted call has returned.) A run of the real pool is
  the run of the schedule that lists its steps.
\<close>

fun submit_rest :: "task list \<Rightarrow> world \<Rightarrow> world" where
  "submit_rest [] w = w"
| "submit_rest ((url, original_text, local_path) # tasks) w =
     submit_rest tasks (w\<lparr>trace := trace w @ [Submit url local_path]\<rparr>)"

fun finish_all ::
  "'img pillow \<Rightarrow> int \<Rightarrow> (task \<times> phase) list \<Rightarrow> world \<Rightarrow> (task \<times> bool) list \<times> world" where
  "finish_all P max_retries [] w = ([], w)"
| "finish_all P max_retries (((url, original_text, local_path), ph) # rest) w =
     (case finish P max_retries url local_path ph w of
        (success, w1) \<Rightarrow>
          (case finish_all P max_retries rest w1 of
             (results, w2) \<Rightarrow> (((url, original_text, local_path), success) # results, w2)))"

definition drain ::
  "'img pillow \<Rightarrow> int \<Rightarrow> task list \<Rightarrow> phase list \<times> world \<Rightarrow> (task \<times> bool) list \<times> world" where
  "drain P max_retries tasks pool =
     (case pool of (phs, w) \<Rightarrow>
        finish_all P max_retries
          (zip tasks (phs @ replicate (length tasks - length phs) Queued))
          (submit_rest (drop (length phs) tasks) w))"

definition run_pool ::
  "'img pillow \<Rightarrow> int \<Rightarrow> int \<Rightarrow> nat list \<Rightarrow> task list \<Rightarrow> world \<Rightarrow> (task \<times> bool) list \<times> world" where
  "run_pool P max_retries max_workers schedule tasks w =
     drain P max_retries tasks (fold (pool_step P max_retries max_workers tasks) schedule ([], w))"

section \<open>Reading the document\<close>

text \<open>
  \<open>open(md_file, 'r', encoding='utf-8')\<close> and \<open>f.read()\<close>. A file holds bytes. The text
  is kept in its UTF-8 encoding (the patterns of the program are delimited by ASCII
  characters, which are single bytes that occur in no longer sequence), so decoding is
  the check that the bytes are well-formed UTF-8, which is what Python's strict decoder
  accepts: each row of the table gives the ranges of the bytes of one well-formed
  sequence. Reading in text mode turns CR LF and a lone CR into LF. \<open>None\<close> is the exception
  of \<open>open\<close> (no such file, a directory) or \<open>UnicodeDecodeError\<close>.
\<close>

definition utf8_table :: "(nat \<times> nat) list list" where
  "utf8_table =
     [[(0x00, 0x7F)],
      [(0xC2, 0xDF), (0x80, 0xBF)],
      [(0xE0, 0xE0), (0xA0, 0xBF), (0x80, 0xBF)],
      [(0xE1, 0xEC), (0x80, 0xBF), (0x80, 0xBF)],
      [(0xED, 0xED), (0x80, 0x9F), (0x80, 0xBF)],
      [(0xEE, 0xEF), (0x80, 0xBF), (0x80, 0xBF)],
      [(0xF0, 0xF0), (0x90, 0xBF), (0x80, 0xBF), (0x80, 0xBF)],
      [(0xF1, 0xF3), (0x80, 0xBF), (0x80, 0xBF), (0x80, 0xBF)],
      [(0xF4, 0xF4), (0x80, 0x8F), (0x80, 0xBF), (0x80, 0xBF)]]"

fun in_ranges :: "(nat \<times> nat) list \<Rightarrow> string \<Rightarrow> bool" where
  "in_ranges [] s = True"
| "in_ranges ((lo, hi) # ranges) [] = False"
| "in_ranges ((lo, hi) # ranges) (c # cs) = (lo \<le> of_char c \<and> of_char c \<le> hi \<and> in_ranges ranges cs)"

text \<open>The number of bytes of the well-formed sequence at the head of the text, 0 for none.\<close>

definition utf8_width :: "string \<Rightarrow> nat" where
  "utf8_width s = (case find (\<lambda>ranges. in_ranges ranges s) utf8_table of
                     None \<Rightarrow> 0
                   | Some ranges \<Rightarrow> length ranges)"

fun utf8_valid :: "string \<Rightarrow> bool" where
  "utf8_valid [] = True"
| "utf8_valid (c # cs) = (case utf8_width (c # cs) of
                            0 \<Rightarrow> False
                          | Suc n \<Rightarrow> utf8_valid (drop n cs))"

fun universal_newlines :: "string \<Rightarrow> string" where
  "universal_newlines [] = []"
| "universal_newlines [c] = [if c = CHR 0x0D then CHR 0x0A else c]"
| "universal_newlines (c # d # cs) =
     (if c = CHR 0x0D \<and> d = CHR 0x0A then CHR 0x0A # universal_newlines cs
      else if c = CHR 0x0D then CHR 0x0A # universal_newlines (d # cs)
      else c # universal_newlines (d # cs))"

definition read_text :: "world \<Rightarrow> path \<Rightarrow> string option" where
  "read_text w p =
     (case files w p of
        None \<Rightarrow> None
      | Some bytes \<Rightarrow> if utf8_valid bytes then Some (universal_newlines bytes) else None)"

section \<open>The coordinator\<close>

definition images_folder :: "path \<Rightarrow> path" where
  "images_folder md_file = butlast md_file @ [''images'']"

text \<open>
  The submission loop makes one task per extracted reference, in order, and stops where
  \<open>generate_filename\<close> raises; the flag says whether it ran to its end.
\<close>

fun submit_all :: "urllib \<Rightarrow> path \<Rightarrow> (string \<times> string) list \<Rightarrow> task list \<times> bool" where
  "submit_all L folder [] = ([], True)"
| "submit_all L folder ((url, original_text) # refs) =
     (case generate_filename L url None of
        None \<Rightarrow> ([], False)
      | Some filename \<Rightarrow>
          (case submit_all L folder refs of
             (tasks, complete) \<Rightarrow> ((url, original_text, folder @ [filename]) # tasks, complete)))"

text \<open>The loop over \<open>as_completed\<close>: an entry for every task that succeeded.\<close>

definition collect :: "(task \<times> bool) list \<Rightarrow> (string \<times> string) list" where
  "collect results =
     fold (\<lambda>((url, original_text, local_path), success) url_replacements.
             if success
             then AList.update original_text (''images/'' @ last local_path) url_replacements
             else url_replacements)
          results []"

text \<open>
  \<open>process_markdown_file\<close>. \<open>schedule\<close> is the interleaving of the pool's threads and
  \<open>as_completed\<close> the order in which the pool hands the finished tasks back (parameters:
  the program fixes neither). \<open>ThreadPoolExecutor\<close> raises \<open>ValueError\<close> for
  \<open>max_workers \<le> 0\<close>. Every exception inside the function ends it with the empty
  dictionary, after the \<open>with\<close> block has waited for the tasks submitted so far. The
  document is written as it was read: the text is in its encoding already, and the
  line separator of the platform is taken to be LF.
\<close>

definition process_markdown_file ::
  "urllib \<Rightarrow> 'img pillow \<Rightarrow> int \<Rightarrow> int \<Rightarrow> nat list \<Rightarrow> ((task \<times> bool) list \<Rightarrow> (task \<times> bool) list)
     \<Rightarrow> world \<Rightarrow> path \<Rightarrow> (string \<times> string) list \<times> world" where
  "process_markdown_file L P max_retries max_workers schedule as_completed w md_file =
     (case read_text w md_file of
        None \<Rightarrow> ([], w)
      | Some content \<Rightarrow>
          (let image_urls = extract_image_urls content
           in if image_urls = [] then ([], w)
              else (case mkdir_exist_ok w (images_folder md_file) of
                      None \<Rightarrow> ([], w)
                    | Some w0 \<Rightarrow>
                        (let w1 = w0\<lparr>trace := trace w0 @ [Mkdir (images_folder md_file)]\<rparr>
                         in if max_workers \<le> 0 then ([], w1)
                            else
                              (case submit_all L (images_folder md_file) image_urls of
                                 (tasks, complete) \<Rightarrow>
                                   (case run_pool P max_retries max_workers schedule tasks w1 of
                                      (results, w2) \<Rightarrow>
                                        if \<not> complete then ([], w2)
                                        else
                                          (let url_replacements = collect (as_completed results)
                                           in if url_replacements = [] then ([], w2)
                                              else (case write_file w2 md_file
                                                           (rewrite url_replacements content) of
                                                      None \<Rightarrow> ([], w2)
                                                    | Some w3 \<Rightarrow> (url_replacements, w3)))))))))"

text \<open>The tasks handed to the pool, read off a trace: URL and destination of each.\<close>

fun submitted :: "event list \<Rightarrow> (string \<times> path) list" where
  "submitted [] = []"
| "submitted (Submit url local_path # es) = (url, local_path) # submitted es"
| "submitted (_ # es) = submitted es"

text \<open>
  A library instance for the concrete evaluations below. It knows the host \<open>x\<close> only
  and takes what follows \<open>http://x\<close> for the path; on every other URL it raises, as
  \<open>urlparse\<close> does on \<open>http://[::1/a.png\<close> (\<open>ValueError: Invalid IPv6 URL\<close>).
\<close>

definition example_lib :: urllib where
  "example_lib =
     \<lparr> md5_hexdigest = (\<lambda>_. ''d41d8cd98f00b204e9800998ecf8427e''),
       unquoted_path = (\<lambda>u. if startswith u ''http://x'' then Some (drop 8 u) else None) \<rparr>"


text \<open>
  An imaging library over images that are their own bytes: every payload decodes,
  nothing has an alpha channel, and the encoding at quality \<open>q\<close> has \<open>q\<close> percent of
  the size of the image.
\<close>

definition example_pil :: "string pillow" where
  "example_pil =
     \<lparr> image_open = (\<lambda>d. Some d), is_rgba = (\<lambda>_. False), flatten_white = (\<lambda>img. img),
       save_jpeg = (\<lambda>img q. Some (replicate (nat q * (length img div 100)) (CHR ''j''))) \<rparr>"

text \<open>The same library, except that it cannot write the image as JPEG.\<close>

definition palette_pil :: "string pillow" where
  "palette_pil = example_pil \<lparr> save_jpeg := (\<lambda>img q. None) \<rparr>"

text \<open>
  A world with the document \<open>docs/a.md\<close> and nothing else; \<open>answers\<close> lists the
  responses the network holds for each URL.
\<close>

definition example_world :: "(string \<times> response list) list \<Rightarrow> string \<Rightarrow> world" where
  "example_world answers doc =
     \<lparr> files = [[''docs'', ''a.md''] \<mapsto> doc], dirs = {[''docs'']},
       net = (\<lambda>url. case map_of answers url of Some rs \<Rightarrow> rs | None \<Rightarrow> []), trace = [] \<rparr>"

definition example_url :: string where
  "example_url = ''http://x/a.png''"

definition example_path :: path where
  "example_path = [''docs'', ''images'', ''a_d41d8cd98f00.png'']"

definition big_payload :: string where
  "big_payload = replicate 1000000 (CHR ''a'')"

definition huge_payload :: string where
  "huge_payload = replicate 3000000 (CHR ''a'')"

text \<open>Documents with one reference, and with the same reference twice; a small image.\<close>

definition doc_once :: string where
  "doc_once = ''see ![cat](http://x/a.png)''"

definition doc_twice :: string where
  "doc_twice = ''![cat](http://x/a.png) and ![cat](http://x/a.png)''"

definition small_image :: string where
  "small_image = replicate 200 (CHR ''a'')"

definition example_md :: path where
  "example_md = [''docs'', ''a.md'']"

text \<open>The example world after an earlier run stored \<open>old\<close> under the image's name.\<close>

definition rerun_world :: "(string \<times> response list) list \<Rightarrow> string \<Rightarrow> world" where
  "rerun_world answers doc =
     (example_world answers doc)
       \<lparr> files := (files (example_world answers doc))(example_path \<mapsto> ''old''),
         dirs := {[''docs''], [''docs'', ''images'']} \<rparr>"

text \<open>
  A second image; a world in which the network answers the example URL with the small
  image first and with the second image next; the two tasks of \<open>doc_twice\<close>.
\<close>

definition other_image :: string where
  "other_image = replicate 200 (CHR ''b'')"

definition race_world :: world where
  "race_world = example_world [(example_url, [Reply 200 small_image ''image/png'',
                                               Reply 200 other_image ''image/png''])] doc_twice"

definition race_tasks :: "task list" where
  "race_tasks = [(example_url, ''![cat](http://x/a.png)'', example_path),
                 (example_url, ''![cat](http://x/a.png)'', example_path)]"

text \<open>
  The schedule in which both tasks are submitted, both are taken by a thread, and both
  make their test for the destination, before anything else happens.
\<close>

definition race_schedule :: "nat list" where
  "race_schedule = [0, 1, 0, 1, 0, 1]"

text \<open>
  The pool of the two tasks, started after the coordinator has made the folder, at the
  moment the first call has stored its file and the second, which made its test before
  that, is about to write.
\<close>

definition race_pool :: "phase list \<times> world" where
  "race_pool = fold (pool_step example_pil 3 5 race_tasks)
                    (race_schedule @ [0, 0, 0, 0, 1, 1, 1])
                    ([], race_world\<lparr>dirs := {[''docs''], [''docs'', ''images'']}\<rparr>)"

text \<open>
  A document whose second reference has a URL that \<open>urlparse\<close> rejects, and a
  document that is not UTF-8 (no sequence starts with the byte \<open>0xFF\<close>).
\<close>

definition doc_bad_url :: string where
  "doc_bad_url = ''![a](http://x/a.png) ![b](http://[::1/b.png) ![c](http://x/a.png)''"

definition doc_not_utf8 :: string where
  "doc_not_utf8 = CHR 0xFF # doc_once"

section \<open>Well-formed tags\<close>

text \<open>
  The text of an attribute \<open>name="value"\<close> after a separator, with either quote
  character, and of an attribute after one space in double quotes.
\<close>

definition render_attr :: "string \<times> string \<times> char \<times> string \<Rightarrow> string" where
  "render_attr a = (case a of (sep, name, q, v) \<Rightarrow> sep @ name @ ''='' @ [q] @ v @ [q])"

definition attr :: "string \<Rightarrow> string \<Rightarrow> string" where
  "attr name v = render_attr ('' '', name, CHR 0x22, v)"

definition blanks :: string where
  "blanks = [CHR '' '', CHR 0x09, CHR 0x0A, CHR 0x0D]"

section \<open>Properties of the name resolver\<close>

lemma fold_replace_map:
  "fold (\<lambda>ch f. map (\<lambda>c. if c = ch then r else c) f) cs f
     = map (\<lambda>c. fold (\<lambda>ch c. if c = ch then r else c) cs c) f"
  by (induction cs arbitrary: f) (simp_all add: comp_def)

lemma fold_replace_char:
  "r \<notin> set cs \<Longrightarrow> fold (\<lambda>ch c. if c = ch then r else c) cs c = (if c \<in> set cs then r else c)"
  by (induction cs arbitrary: c) auto

lemma set_basename: "set (basename p) \<subseteq> set p"
  unfolding basename_def using set_takeWhileD by fastforce

lemma set_splitext_fst: "set (fst (splitext p)) \<subseteq> set p"
  by (auto simp: splitext_def Let_def dest: in_set_takeD)

lemma set_splitext_snd: "set (snd (splitext p)) \<subseteq> set p"
proof -
  have "set (rev (takeWhile (\<lambda>c. c \<noteq> CHR ''.'') (rev (basename p)))) \<subseteq> set (basename p)"
    using set_takeWhileD by fastforce
  moreover note set_basename [of p]
  ultimately show ?thesis
    by (auto simp: splitext_def Let_def)
qed

lemma sanitize_filename_legal: "set (sanitize_filename f) \<inter> set illegal_chars = {}"
proof -
  define g where "g = map (\<lambda>c. if c \<in> set illegal_chars then CHR ''_'' else c) f"
  have us: "CHR ''_'' \<notin> set illegal_chars" by (simp add: illegal_chars_def)
  have fg: "fold (\<lambda>ch f. map (\<lambda>c. if c = ch then CHR ''_'' else c) f) illegal_chars f = g"
    unfolding g_def fold_replace_map using fold_replace_char [OF us] by simp
  have g: "set g \<inter> set illegal_chars = {}"
    unfolding g_def using us by auto
  have "set (take 95 (fst (splitext g)) @ snd (splitext g)) \<subseteq> set g"
    using set_splitext_fst [of g] set_splitext_snd [of g] by (auto dest: in_set_takeD)
  with g have "set (take 95 (fst (splitext g)) @ snd (splitext g)) \<inter> set illegal_chars = {}"
    by blast
  with g show ?thesis
    unfolding sanitize_filename_def fg Let_def by (simp add: case_prod_beta)
qed

lemma image_ext_props:
  "e \<in> set image_exts \<Longrightarrow> set e \<inter> set illegal_chars = {} \<and> length e \<le> 5 \<and> e \<noteq> []"
  by (auto simp: image_exts_def illegal_chars_def)

lemma get_image_extension_range:
  "get_image_extension L url ct = Some e \<Longrightarrow> e \<in> set image_exts"
  unfolding get_image_extension_def
  by (auto simp: image_exts_def split: option.splits prod.splits if_splits)

lemma get_image_extension_total:
  "unquoted_path L url = Some p \<Longrightarrow> \<exists>e. get_image_extension L url ct = Some e"
  unfolding get_image_extension_def
  by (auto split: option.splits prod.splits if_splits)

lemma hex_legal: "hex_digits \<inter> set illegal_chars = {}"
  by (auto simp: hex_digits_def illegal_chars_def)

lemma generate_filename_shape:
  assumes "unquoted_path L url = Some path"
  shows "\<exists>stem ext. generate_filename L url ct = Some (stem @ ''_'' @ take 12 (md5_hexdigest L url) @ ext)
            \<and> length stem \<le> 20 \<and> set stem \<inter> set illegal_chars = {} \<and> ext \<in> set image_exts"
proof -
  let ?h = "take 12 (md5_hexdigest L url)"
  obtain e where e: "get_image_extension L url ct = Some e"
    using get_image_extension_total [OF assms] by blast
  obtain name0 ext0 where sp: "splitext (basename path) = (name0, ext0)"
    by (cases "splitext (basename path)")
  let ?named = "basename path \<noteq> [] \<and> CHR ''.'' \<in> set (basename path) \<and> lower ext0 \<in> set image_exts"
  show ?thesis
  proof (cases ?named)
    case True
    then have "generate_filename L url ct = Some (take 20 (sanitize_filename name0) @ ''_'' @ ?h @ lower ext0)"
      by (simp add: generate_filename_def Let_def assms e sp)
    moreover have "set (take 20 (sanitize_filename name0)) \<inter> set illegal_chars = {}"
      using sanitize_filename_legal [of name0] by (auto dest: in_set_takeD)
    ultimately show ?thesis using True by (intro exI [of _ "take 20 (sanitize_filename name0)"] exI [of _ "lower ext0"]) simp
  next
    case False
    then have "generate_filename L url ct = Some (''image'' @ ''_'' @ ?h @ e)"
      by (auto simp add: generate_filename_def Let_def assms e sp)
    moreover have "set ''image'' \<inter> set illegal_chars = {}"
      by (simp add: illegal_chars_def)
    ultimately show ?thesis using get_image_extension_range [OF e]
      by (intro exI [of _ "''image''"] exI [of _ e]) simp
  qed
qed


lemma generate_filename_depends:
  assumes "md5_hexdigest L' url = md5_hexdigest L url"
      and "unquoted_path L' url = unquoted_path L url"
  shows "generate_filename L' url ct = generate_filename L url ct"
  unfolding generate_filename_def get_image_extension_def assms ..

lemma generate_filename_raises:
  "unquoted_path L url = None \<Longrightarrow> generate_filename L url ct = None"
  by (simp add: generate_filename_def)

text \<open>
  Claim C9, as stated for every URL, fails: \<open>urlparse\<close> raises \<open>ValueError\<close> on a URL
  with an unmatched bracket in its host, such as \<open>http://[::1/a.png\<close>, nothing in
  \<open>generate_filename\<close> catches it, and no name is produced.
\<close>

theorem generate_filename_raises_counterexample:
  "unquoted_path example_lib ''http://[::1/a.png'' = None
   \<and> generate_filename example_lib ''http://[::1/a.png'' None = None
   \<and> \<not> (\<exists>name. generate_filename example_lib ''http://[::1/a.png'' None = Some name)"
  by (simp add: generate_filename_def example_lib_def startswith_def)

text \<open>
  Claim C9, amended. For every URL, \<open>generate_filename\<close> either raises, exactly where
  \<open>urlparse\<close> does, or returns a name. The name is a function of the URL's hash, the
  URL's path and the content type alone (two calls with the same arguments give the
  same name, whatever else the library does); it is \<open>stem_hash.ext\<close> with the first 12
  characters of the MD5 hex digest as \<open>hash\<close>, an extension out of the seven image
  extensions, no character of \<open>illegal_chars\<close> (the path separators and reserved
  characters \<open><>:"/\|?*\<close>) and at most 38 characters. The two facts used of the digest
  are those of \<open>hexdigest()\<close>: 32 characters, all lower-case hexadecimal digits.
\<close>

theorem generate_filename_deterministic_safe:
  assumes len: "length (md5_hexdigest L url) = 32"
      and hex: "set (md5_hexdigest L url) \<subseteq> hex_digits"
  shows "(unquoted_path L url = None \<and> generate_filename L url ct = None)
       \<or> (\<exists>path name stem ext.
             unquoted_path L url = Some path
           \<and> generate_filename L url ct = Some name
           \<and> (\<forall>L'. md5_hexdigest L' url = md5_hexdigest L url
                     \<and> unquoted_path L' url = unquoted_path L url
                  \<longrightarrow> generate_filename L' url ct = Some name)
           \<and> name = stem @ ''_'' @ take 12 (md5_hexdigest L url) @ ext
           \<and> length (take 12 (md5_hexdigest L url)) = 12
           \<and> set (take 12 (md5_hexdigest L url)) \<subseteq> hex_digits
           \<and> ext \<in> set image_exts
           \<and> set name \<inter> set illegal_chars = {}
           \<and> length name \<le> 38)"
proof (cases "unquoted_path L url")
  case None
  with generate_filename_raises [OF None] show ?thesis by simp
next
  case (Some path)
  let ?h = "take 12 (md5_hexdigest L url)"
  obtain stem ext where g: "generate_filename L url ct = Some (stem @ ''_'' @ ?h @ ext)"
    and stem: "length stem \<le> 20" "set stem \<inter> set illegal_chars = {}"
    and ext: "ext \<in> set image_exts"
    using generate_filename_shape [OF Some] by blast
  have h12: "length ?h = 12" using len by simp
  have hhex: "set ?h \<subseteq> hex_digits" using hex by (auto dest: in_set_takeD)
  have hleg: "set ?h \<inter> set illegal_chars = {}" using hhex hex_legal by blast
  have us: "CHR ''_'' \<notin> set illegal_chars" by (simp add: illegal_chars_def)
  have legal: "set (stem @ ''_'' @ ?h @ ext) \<inter> set illegal_chars = {}"
    using stem(2) hleg us image_ext_props [OF ext] by (simp add: Int_Un_distrib2)
  have bound: "length (stem @ ''_'' @ ?h @ ext) \<le> 38"
    using stem(1) h12 image_ext_props [OF ext] by simp
  have det: "\<forall>L'. md5_hexdigest L' url = md5_hexdigest L url \<and> unquoted_path L' url = unquoted_path L url
                \<longrightarrow> generate_filename L' url ct = Some (stem @ ''_'' @ ?h @ ext)"
    using generate_filename_depends [of _ url L ct] g by simp
  have "\<exists>path name stem ext.
             unquoted_path L url = Some path
           \<and> generate_filename L url ct = Some name
           \<and> (\<forall>L'. md5_hexdigest L' url = md5_hexdigest L url
                     \<and> unquoted_path L' url = unquoted_path L url
                  \<longrightarrow> generate_filename L' url ct = Some name)
           \<and> name = stem @ ''_'' @ take 12 (md5_hexdigest L url) @ ext
           \<and> length (take 12 (md5_hexdigest L url)) = 12
           \<and> set (take 12 (md5_hexdigest L url)) \<subseteq> hex_digits
           \<and> ext \<in> set image_exts
           \<and> set name \<inter> set illegal_chars = {}
           \<and> length name \<le> 38"
    using Some g det h12 hhex ext legal bound by blast
  then show ?thesis by (rule disjI2)
qed

theorem generate_filename_deterministic_safe_witness:
  "length (md5_hexdigest example_lib ''http://x/a.png'') = 32
   \<and> set (md5_hexdigest example_lib ''http://x/a.png'') \<subseteq> hex_digits
   \<and> unquoted_path example_lib ''http://x/a.png'' = Some ''/a.png''
   \<and> generate_filename example_lib ''http://x/a.png'' None = Some ''a_d41d8cd98f00.png''
   \<and> (\<exists>name stem ext.
           generate_filename example_lib ''http://x/a.png'' None = Some name
         \<and> name = stem @ ''_'' @ take 12 (md5_hexdigest example_lib ''http://x/a.png'') @ ext
         \<and> set name \<inter> set illegal_chars = {}
         \<and> length name \<le> 38)"
proof -
  have p: "unquoted_path example_lib ''http://x/a.png'' = Some ''/a.png''"
    by (simp add: example_lib_def startswith_def)
  have l: "length (md5_hexdigest example_lib ''http://x/a.png'') = 32"
    by (simp add: example_lib_def)
  have h: "set (md5_hexdigest example_lib ''http://x/a.png'') \<subseteq> hex_digits"
    by (simp add: example_lib_def hex_digits_def)
  have v: "generate_filename example_lib ''http://x/a.png'' None = Some ''a_d41d8cd98f00.png''"
    by code_simp
  from generate_filename_deterministic_safe [OF l h, of None] p
  have "\<exists>name stem ext.
           generate_filename example_lib ''http://x/a.png'' None = Some name
         \<and> name = stem @ ''_'' @ take 12 (md5_hexdigest example_lib ''http://x/a.png'') @ ext
         \<and> set name \<inter> set illegal_chars = {}
         \<and> length name \<le> 38"
    by auto
  with p l h v show ?thesis by blast
qed

section \<open>Properties of the fetcher\<close>

declare download_image.simps [simp del] findall.simps [simp del] replace_from.simps [simp del]
  py_range.simps [simp del]

lemma http_get_cases:
  "http_get w url = (r, w1) \<Longrightarrow>
     files w1 = files w \<and> dirs w1 = dirs w \<and> trace w1 = trace w @ [Get url]
     \<and> (case net w url of [] \<Rightarrow> r = ConnError \<and> net w1 = net w
          | x # xs \<Rightarrow> r = x \<and> net w1 = (net w)(url := xs))"
  by (auto simp: http_get_def split: list.splits)

lemma mkdir_parents_keeps:
  "mkdir_parents w p = Some w1 \<Longrightarrow>
     files w1 = files w \<and> dirs w \<subseteq> dirs w1 \<and> trace w1 = trace w \<and> net w1 = net w"
  by (auto simp: mkdir_parents_def split: if_splits)

lemma mkdir_parents_dirs:
  "mkdir_parents w p = Some w1 \<Longrightarrow> dirs w1 = dirs w \<union> set (ancestors p)"
  by (auto simp: mkdir_parents_def split: if_splits)


lemma write_file_effect:
  "write_file w p data = Some w1 \<Longrightarrow>
     files w1 = (files w)(p \<mapsto> data) \<and> dirs w1 = dirs w \<and> trace w1 = trace w @ [Written p]
     \<and> net w1 = net w"
  by (auto simp: write_file_def split: if_splits)

lemma attempt_skip: "path_exists w p \<Longrightarrow> attempt P w url p = (True, w)"
  by (simp add: attempt_def)

lemma attempt_conn_error:
  assumes "\<not> path_exists w p" and "http_get (sleep 500 w) url = (ConnError, w0)"
  shows "attempt P w url p = (False, w0)"
  using assms by (simp add: attempt_def)

lemma attempt_rejected:
  assumes "\<not> path_exists w p" and "http_get (sleep 500 w) url = (Reply status image_data content_type, w0)"
    and "(400 \<le> status \<and> status < 600) \<or> length image_data < 100"
  shows "attempt P w url p = (False, w0)"
  using assms by (auto simp add: attempt_def)

lemma attempt_accepted:
  assumes "\<not> path_exists w p" and "http_get (sleep 500 w) url = (Reply status image_data content_type, w0)"
    and "\<not> (400 \<le> status \<and> status < 600)" and "\<not> length image_data < 100"
  shows "attempt P w url p =
          (case mkdir_parents w0 (butlast p) of
                  None \<Rightarrow> (False, w0)
                | Some w2 \<Rightarrow>
                    (case write_file w2 p
                            (if py_in ''svg'' (lower content_type)
                             then image_data else compress_image P image_data 500) of
                       None \<Rightarrow> (False, w2)
                     | Some w3 \<Rightarrow> (True, w3)))"
proof (cases "py_in ''svg'' (lower content_type)")
  case True
  with assms show ?thesis by (auto simp add: attempt_def Let_def)
next
  case False
  with assms show ?thesis by (auto simp add: attempt_def Let_def)
qed

lemma attempt_effect:
  assumes a: "attempt P w url p = (ok, w1)" and ne: "\<not> path_exists w p"
  shows "trace w1 = trace w @ [Sleep 500, Get url] @ (if ok then [Written p] else [])
         \<and> dirs w \<subseteq> dirs w1 \<and> dirs w1 \<subseteq> dirs w \<union> set (ancestors (butlast p))
         \<and> (if ok then \<exists>data. files w1 = (files w)(p \<mapsto> data) else files w1 = files w)"
proof -
  obtain r w0 where g: "http_get (sleep 500 w) url = (r, w0)"
    by (cases "http_get (sleep 500 w) url")
  have w0: "files w0 = files w" "dirs w0 = dirs w" "trace w0 = trace w @ [Sleep 500, Get url]"
    using http_get_cases [OF g] by (simp_all add: sleep_def)
  have failed: ?thesis if "attempt P w url p = (False, w0)"
    using that a w0 by simp
  show ?thesis
  proof (cases r)
    case ConnError
    from failed [OF attempt_conn_error [OF ne g [unfolded ConnError]]] show ?thesis .
  next
    case (Reply status image_data content_type)
    note g' = g [unfolded Reply]
    show ?thesis
    proof (cases "(400 \<le> status \<and> status < 600) \<or> length image_data < 100")
      case True
      from failed attempt_rejected [OF ne g' True] show ?thesis .
    next
      case False
      then have ok: "\<not> (400 \<le> status \<and> status < 600)" "\<not> length image_data < 100" by auto
      note f = attempt_accepted [OF ne g' ok, of P]
      show ?thesis
      proof (cases "mkdir_parents w0 (butlast p)")
        case None
        with f failed show ?thesis by simp
      next
        case (Some w2)
        note w2 = mkdir_parents_keeps [OF Some] mkdir_parents_dirs [OF Some]
        let ?data = "if py_in ''svg'' (lower content_type)
                             then image_data else compress_image P image_data 500"
        show ?thesis
        proof (cases "write_file w2 p ?data")
          case None
          then have "attempt P w url p = (False, w2)" using f Some by simp
          with a have "ok = False" "w1 = w2" by simp_all
          with w0 w2 show ?thesis by auto
        next
          case (Some w3)
          note w3 = write_file_effect [OF Some]
          have "attempt P w url p = (True, w3)"
            using f Some \<open>mkdir_parents w0 (butlast p) = Some w2\<close> by simp
          with a have "ok = True" "w1 = w3" by simp_all
          with w0 w2 w3 show ?thesis by auto
        qed
      qed
    qed
  qed
qed

lemma attempt_keeps_files:
  assumes "attempt P w url p = (ok, w1)" and "q \<in> dom (files w)"
  shows "files w1 q = files w q"
proof (cases "path_exists w p")
  case True
  with assms show ?thesis by (simp add: attempt_skip)
next
  case False
  then have "q \<noteq> p" using assms(2) by (auto simp: path_exists_def)
  with attempt_effect [OF assms(1) False] show ?thesis by (auto split: if_splits)
qed

lemma attempt_grows:
  assumes "attempt P w url p = (ok, w1)"
  shows "dom (files w) \<subseteq> dom (files w1) \<and> dirs w \<subseteq> dirs w1"
proof (cases "path_exists w p")
  case True
  with assms show ?thesis by (simp add: attempt_skip)
next
  case False
  with attempt_effect [OF assms False] show ?thesis by (auto split: if_splits)
qed

lemma download_image_unfold:
  "attempt P w url p = (a, w1) \<Longrightarrow>
   download_image P mr w url p r =
     (if a then (True, w1)
      else if int r < mr then download_image P mr (sleep (1000 * 2 ^ r) w1) url p (r + 1)
      else (False, w1))"
  by (subst download_image.simps) simp

lemma download_image_keeps_files:
  "download_image P mr w url p r = (ok, w') \<Longrightarrow> q \<in> dom (files w) \<Longrightarrow> files w' q = files w q"
proof (induction P mr w url p r arbitrary: ok w' rule: download_image.induct)
  case (1 P mr w url p r)
  obtain a w1 where a: "attempt P w url p = (a, w1)" by (cases "attempt P w url p")
  note keep = attempt_keeps_files [OF a "1.prems"(2)]
  have q1: "q \<in> dom (files w1)" using a "1.prems"(2) attempt_grows by blast
  show ?case
  proof (cases "\<not> a \<and> int r < mr")
    case True
    then have d: "download_image P mr (sleep (1000 * 2 ^ r) w1) url p (r + 1) = (ok, w')"
      using "1.prems"(1) download_image_unfold [OF a, of mr r] by simp
    have q2: "q \<in> dom (files (sleep (1000 * 2 ^ r) w1))" using q1 by (simp add: sleep_def)
    have "files w' q = files (sleep (1000 * 2 ^ r) w1) q"
      using "1.IH" [OF a [symmetric] _ _ d q2] True by simp
    then show ?thesis using keep by (simp add: sleep_def)
  next
    case False
    then have "w' = w1" using "1.prems"(1) download_image_unfold [OF a, of mr r]
      by (auto split: if_splits)
    with keep show ?thesis by simp
  qed
qed

lemma download_image_trace:
  "download_image P mr w url p r = (ok, w') \<Longrightarrow>
     \<exists>k final. trace w' = trace w @ concat (map (failed_try url) [r..<r + k]) @ final
        \<and> int k \<le> max 0 (mr - int r)
        \<and> (if ok then final = [] \<or> final = [Sleep 500, Get url, Written p]
            else final = [Sleep 500, Get url] \<and> mr \<le> int (r + k))"
proof (induction P mr w url p r arbitrary: ok w' rule: download_image.induct)
  case (1 P mr w url p r)
  obtain a w1 where a: "attempt P w url p = (a, w1)" by (cases "attempt P w url p")
  note unf = download_image_unfold [OF a, of mr r]
  show ?case
  proof (cases "path_exists w p")
    case True
    then have "ok = True" "w' = w" using "1.prems" a unf by (simp_all add: attempt_skip)
    then show ?thesis by (intro exI [of _ 0] exI [of _ "[]"]) simp
  next
    case False
    note eff = attempt_effect [OF a False]
    show ?thesis
    proof (cases a)
      case True
      then have "ok = True" "w' = w1" using "1.prems" unf by simp_all
      with eff True show ?thesis
        by (intro exI [of _ 0] exI [of _ "[Sleep 500, Get url, Written p]"]) simp
    next
      case na: False
      show ?thesis
      proof (cases "int r < mr")
        case True
        then have d: "download_image P mr (sleep (1000 * 2 ^ r) w1) url p (r + 1) = (ok, w')"
          using "1.prems" unf na by simp
        from "1.IH" [OF a [symmetric] _ True d] na
        obtain k final where
          t: "trace w' = trace (sleep (1000 * 2 ^ r) w1) @ concat (map (failed_try url) [r + 1..<r + 1 + k]) @ final"
          and k: "int k \<le> max 0 (mr - int (r + 1))"
          and f: "if ok then final = [] \<or> final = [Sleep 500, Get url, Written p]
            else final = [Sleep 500, Get url] \<and> mr \<le> int (r + 1 + k)"
          by auto
        have s: "trace (sleep (1000 * 2 ^ r) w1) = trace w @ failed_try url r"
          using eff na by (simp add: sleep_def failed_try_def)
        have u: "[r..<r + Suc k] = r # [r + 1..<r + 1 + k]"
          by (simp add: upt_conv_Cons)
        have "trace w' = trace w @ concat (map (failed_try url) [r..<r + Suc k]) @ final"
          unfolding t s u by simp
        moreover have "int (Suc k) \<le> max 0 (mr - int r)" using k True by simp
        moreover have "if ok then final = [] \<or> final = [Sleep 500, Get url, Written p]
            else final = [Sleep 500, Get url] \<and> mr \<le> int (r + Suc k)"
          using f by (simp split: if_splits)
        ultimately show ?thesis by blast
      next
        case False
        then have "ok = False" "w' = w1" using "1.prems" unf na by simp_all
        with eff na False show ?thesis
          by (intro exI [of _ 0] exI [of _ "[Sleep 500, Get url]"]) simp
      qed
    qed
  qed
qed



lemma py_range_levels: "py_range 85 20 (- 5) = [85, 80, 75, 70, 65, 60, 55, 50, 45, 40, 35, 30, 25]"
  by code_simp

lemma ancestors_example: "ancestors [''docs'', ''images''] = [[''docs''], [''docs'', ''images'']]"
  by code_simp

lemma big_payload_length: "length big_payload = 1000000"
  by (simp add: big_payload_def)

lemma compress_big_payload: "compress_image example_pil big_payload 500 = replicate 500000 (CHR ''j'')"
  by (simp add: compress_image_def example_pil_def big_payload_length py_range_levels)

lemma svg_marker: "py_in ''svg'' (lower ''image/SVG+xml'')" "\<not> py_in ''svg'' (lower ''image/png'')"
  by code_simp+

lemma attempt_stores:
  assumes "\<not> path_exists w p" and "net w url = Reply status image_data content_type # rest"
    and "\<not> (400 \<le> status \<and> status < 600)" and "\<not> length image_data < 100"
    and "mkdir_parents (w\<lparr>net := (net w)(url := rest), trace := trace w @ [Sleep 500, Get url]\<rparr>) (butlast p) = Some w2"
    and "write_file w2 p (if py_in ''svg'' (lower content_type) then image_data
                else compress_image P image_data 500) = Some w3"
  shows "attempt P w url p = (True, w3)"
proof -
  let ?w1 = "w\<lparr>net := (net w)(url := rest), trace := trace w @ [Sleep 500, Get url]\<rparr>"
  have g: "http_get (sleep 500 w) url = (Reply status image_data content_type, ?w1)"
    using assms(2) by (simp add: http_get_def sleep_def)
  from attempt_accepted [OF assms(1) g assms(3,4), of P] assms(5,6) show ?thesis by simp
qed

lemma example_world_stores:
  "\<exists>w2 w3. mkdir_parents ((example_world answers doc)\<lparr>net := n, trace := t\<rparr>) (butlast example_path) = Some w2
      \<and> write_file w2 example_path d = Some w3"
  by (simp add: mkdir_parents_def ancestors_example write_file_def is_dir_def example_world_def example_path_def)






text \<open>
  Claim C7. A response body under 100 bytes makes the attempt fail like any other
  exception of the \<open>try\<close> block, whatever its status and content type: the attempt
  returns without a file written (the file system is as before, the trace has the
  request and no write), and \<open>download_image\<close> goes on to its retry branch: another try
  after the backoff while \<open>retries < max_retries\<close>, \<open>False\<close> otherwise.
\<close>

theorem small_payload_rejected:
  assumes "\<not> path_exists w save_path"
      and "net w url = Reply status image_data content_type # rest"
      and "length image_data < 100"
  shows "attempt P w url save_path
           = (False, w\<lparr>net := (net w)(url := rest), trace := trace w @ [Sleep 500, Get url]\<rparr>)
       \<and> download_image P max_retries w url save_path retries
           = (if int retries < max_retries
              then download_image P max_retries
                     (sleep (1000 * 2 ^ retries)
                        (w\<lparr>net := (net w)(url := rest), trace := trace w @ [Sleep 500, Get url]\<rparr>))
                     url save_path (retries + 1)
              else (False, w\<lparr>net := (net w)(url := rest), trace := trace w @ [Sleep 500, Get url]\<rparr>))"
proof -
  let ?w1 = "w\<lparr>net := (net w)(url := rest), trace := trace w @ [Sleep 500, Get url]\<rparr>"
  have g: "http_get (sleep 500 w) url = (Reply status image_data content_type, ?w1)"
    using assms(2) by (simp add: http_get_def sleep_def)
  have a: "attempt P w url save_path = (False, ?w1)"
    using attempt_rejected [OF assms(1) g] assms(3) by simp
  from a download_image_unfold [OF a, of max_retries retries] show ?thesis by simp
qed

theorem small_payload_rejected_witness:
  "\<not> path_exists (example_world [(example_url, [Reply 200 ''tiny'' ''image/png''])] []) example_path
   \<and> net (example_world [(example_url, [Reply 200 ''tiny'' ''image/png''])] []) example_url
        = Reply 200 ''tiny'' ''image/png'' # []
   \<and> length ''tiny'' < (100 :: nat)
   \<and> fst (attempt example_pil (example_world [(example_url, [Reply 200 ''tiny'' ''image/png''])] [])
             example_url example_path) = False
   \<and> fst (download_image example_pil 0 (example_world [(example_url, [Reply 200 ''tiny'' ''image/png''])] [])
             example_url example_path 0) = False"
proof -
  let ?w = "example_world [(example_url, [Reply 200 ''tiny'' ''image/png''])] []"
  have e: "\<not> path_exists ?w example_path"
    by (simp add: path_exists_def example_world_def example_path_def)
  have n: "net ?w example_url = Reply 200 ''tiny'' ''image/png'' # []"
    by (simp add: example_world_def)
  have l: "length ''tiny'' < (100 :: nat)" by simp
  from small_payload_rejected [OF e n l, of example_pil 0 0] e n l show ?thesis by simp
qed

text \<open>
  Claim C8. Where an attempt fetched a response and stored it, the stored payload is
  the response body itself if the lower-cased content type contains \<open>svg\<close>, whatever
  its size, and otherwise what \<open>compress_image\<close> (budget 500 KB) makes of the body.
\<close>

theorem svg_exempt_others_compressed:
  assumes "\<not> path_exists w save_path"
      and "net w url = Reply status image_data content_type # rest"
      and "attempt P w url save_path = (True, w')"
  shows "files w' save_path
           = Some (if py_in ''svg'' (lower content_type) then image_data
                   else compress_image P image_data 500)"
proof -
  let ?w1 = "w\<lparr>net := (net w)(url := rest), trace := trace w @ [Sleep 500, Get url]\<rparr>"
  let ?data = "if py_in ''svg'' (lower content_type) then image_data
                   else compress_image P image_data 500"
  have g: "http_get (sleep 500 w) url = (Reply status image_data content_type, ?w1)"
    using assms(2) by (simp add: http_get_def sleep_def)
  have ok: "\<not> (400 \<le> status \<and> status < 600)" "\<not> length image_data < 100"
    using attempt_rejected [OF assms(1) g, of P] assms(3) by auto
  note f = attempt_accepted [OF assms(1) g ok, of P]
  obtain w2 where m: "mkdir_parents ?w1 (butlast save_path) = Some w2"
    using f assms(3) by (cases "mkdir_parents ?w1 (butlast save_path)") auto
  have "write_file w2 save_path ?data = Some w'"
    using f assms(3) m by (cases "write_file w2 save_path ?data") auto
  from write_file_effect [OF this] show ?thesis by simp
qed

theorem svg_exempt_others_compressed_witness:
  "\<not> path_exists (example_world [(example_url, [Reply 200 big_payload ''image/SVG+xml'']),
                                  (''http://x/b.png'', [Reply 200 big_payload ''image/png''])] []) example_path
   \<and> files (snd (attempt example_pil
        (example_world [(example_url, [Reply 200 big_payload ''image/SVG+xml'']),
                        (''http://x/b.png'', [Reply 200 big_payload ''image/png''])] [])
        example_url example_path)) example_path = Some big_payload
   \<and> files (snd (attempt example_pil
        (example_world [(example_url, [Reply 200 big_payload ''image/SVG+xml'']),
                        (''http://x/b.png'', [Reply 200 big_payload ''image/png''])] [])
        ''http://x/b.png'' example_path)) example_path = Some (replicate 500000 (CHR ''j''))"
proof -
  let ?w = "example_world [(example_url, [Reply 200 big_payload ''image/SVG+xml'']),
                           (''http://x/b.png'', [Reply 200 big_payload ''image/png''])] []"
  have e: "\<not> path_exists ?w example_path"
    by (simp add: path_exists_def example_world_def example_path_def)
  have n1: "net ?w example_url = Reply 200 big_payload ''image/SVG+xml'' # []"
    by (simp add: example_world_def example_url_def)
  have n2: "net ?w ''http://x/b.png'' = Reply 200 big_payload ''image/png'' # []"
    by (simp add: example_world_def example_url_def)
  have st: "\<not> (400 \<le> (200::nat) \<and> (200::nat) < 600)" by simp
  have ln: "\<not> length big_payload < 100" by (simp add: big_payload_length)
  obtain w2 w3 where
    "mkdir_parents (?w\<lparr>net := (net ?w)(example_url := []), trace := trace ?w @ [Sleep 500, Get example_url]\<rparr>)
        (butlast example_path) = Some w2"
    "write_file w2 example_path (if py_in ''svg'' (lower ''image/SVG+xml'') then big_payload
                else compress_image example_pil big_payload 500) = Some w3"
    using example_world_stores by blast
  then have a1: "attempt example_pil ?w example_url example_path = (True, w3)"
    by (rule attempt_stores [OF e n1 st ln])
  obtain v2 v3 where
    "mkdir_parents (?w\<lparr>net := (net ?w)(''http://x/b.png'' := []), trace := trace ?w @ [Sleep 500, Get ''http://x/b.png'']\<rparr>)
        (butlast example_path) = Some v2"
    "write_file v2 example_path (if py_in ''svg'' (lower ''image/png'') then big_payload
                else compress_image example_pil big_payload 500) = Some v3"
    using example_world_stores by blast
  then have a2: "attempt example_pil ?w ''http://x/b.png'' example_path = (True, v3)"
    by (rule attempt_stores [OF e n2 st ln])
  from svg_exempt_others_compressed [OF e n1 a1] svg_exempt_others_compressed [OF e n2 a2]
  show ?thesis
    using e a1 a2 by (simp add: svg_marker compress_big_payload)
qed
section \<open>Properties of the size-reduction step\<close>

lemma quality_loop_find:
  "\<forall>q. save_jpeg P img q = Some (enc q) \<Longrightarrow>
   quality_loop P img budget qs =
     (case find (\<lambda>q. int (length (enc q)) \<le> budget) qs of
        Some q \<Rightarrow> Fits (enc q)
      | None \<Rightarrow> Exhausted)"
  by (induction qs) simp_all

lemma compress_image_over_budget:
  assumes "max_size_kb * 1024 < int (length image_data)"
      and "image_open P image_data = Some img0"
  shows "compress_image P image_data max_size_kb =
     (let img = (if is_rgba P img0 then flatten_white P img0 else img0)
                 in case quality_loop P img (max_size_kb * 1024) (py_range 85 20 (- 5)) of
                      Fits compressed_data \<Rightarrow> compressed_data
                    | Raised \<Rightarrow> image_data
                    | Exhausted \<Rightarrow>
                        (case save_jpeg P img 20 of
                           None \<Rightarrow> image_data
                         | Some d \<Rightarrow> d))"
  using assms by (simp add: compress_image_def)

lemma huge_payload_length: "length huge_payload = 3000000"
  by (simp add: huge_payload_def)

lemma basename_no_sep: "CHR ''/'' \<notin> set (basename p)"
  unfolding basename_def using set_takeWhileD [of "CHR ''/''" "\<lambda>c. c \<noteq> CHR ''/''" "rev p"] by auto

lemma basename_idem: "basename (basename p) = basename p"
proof -
  have "\<forall>c \<in> set (rev (basename p)). c \<noteq> CHR ''/''"
    using basename_no_sep [of p] by auto
  then have "takeWhile (\<lambda>c. c \<noteq> CHR ''/'') (rev (basename p)) = rev (basename p)"
    by (simp only: takeWhile_eq_all_conv)
  then have "rev (takeWhile (\<lambda>c. c \<noteq> CHR ''/'') (rev (basename p))) = rev (rev (basename p))"
    by (rule arg_cong)
  then show ?thesis
    unfolding basename_def [of "basename p"] by (simp only: rev_rev_ident)
qed

lemma splitext_ext_dot:
  "splitext p = (n, e) \<Longrightarrow> e \<noteq> [] \<Longrightarrow> CHR ''.'' \<in> set (basename p)"
  by (auto simp: splitext_def Let_def split: if_splits)

lemma generate_filename_keeps_url_ext:
  assumes path: "unquoted_path L url = Some path"
      and sp: "splitext (basename path) = (name0, ext)"
      and ext: "lower ext \<in> set image_exts"
  shows "generate_filename L url ct
           = Some (take 20 (sanitize_filename name0) @ ''_'' @ take 12 (md5_hexdigest L url) @ lower ext)"
proof -
  have "lower ext \<noteq> []" using image_ext_props [OF ext] by simp
  then have "ext \<noteq> []" by (auto simp: lower_def)
  from splitext_ext_dot [OF sp this] have dot: "CHR ''.'' \<in> set (basename path)"
    by (simp add: basename_idem)
  then have "basename path \<noteq> []" by auto
  with dot show ?thesis
    by (simp add: generate_filename_def Let_def path sp ext)
qed


lemma quality_loop_fits:
  "quality_loop P img b qs = Fits d \<Longrightarrow> \<exists>q. q \<in> set qs \<and> save_jpeg P img q = Some d"
  by (induction qs) (auto split: option.splits if_splits)

lemma quality_loop_raised_some:
  "quality_loop P img b qs = Raised \<Longrightarrow> \<exists>q. q \<in> set qs \<and> save_jpeg P img q = None"
  by (induction qs) (auto split: option.splits if_splits)

lemma quality_loop_exhausted:
  "(\<forall>q. q \<in> set qs \<longrightarrow> (\<exists>d. save_jpeg P img q = Some d \<and> b < int (length d)))
     \<Longrightarrow> quality_loop P img b qs = Exhausted"
  by (induction qs) auto

lemma quality_loop_raised:
  "q \<in> set qs \<Longrightarrow> save_jpeg P img q = None \<Longrightarrow>
   (\<forall>q'. q' \<in> set (takeWhile (\<lambda>x. x \<noteq> q) qs)
          \<longrightarrow> (\<exists>d. save_jpeg P img q' = Some d \<and> b < int (length d))) \<Longrightarrow>
   quality_loop P img b qs = Raised"
proof (induction qs)
  case Nil
  then show ?case by simp
next
  case (Cons x qs)
  show ?case
  proof (cases "x = q")
    case True
    with Cons.prems show ?thesis by simp
  next
    case False
    with Cons.prems obtain d where d: "save_jpeg P img x = Some d" "b < int (length d)"
      by auto
    have "quality_loop P img b qs = Raised"
      using Cons.IH Cons.prems False by auto
    with d show ?thesis by simp
  qed
qed

lemma compress_image_cases:
  assumes over: "max_size_kb * 1024 < int (length image_data)"
      and opened: "image_open P image_data = Some img0"
      and img: "img = (if is_rgba P img0 then flatten_white P img0 else img0)"
  shows "compress_image P image_data max_size_kb =
      (case quality_loop P img (max_size_kb * 1024) [85, 80, 75, 70, 65, 60, 55, 50, 45, 40, 35, 30, 25] of
                      Fits compressed_data \<Rightarrow> compressed_data
                    | Raised \<Rightarrow> image_data
                    | Exhausted \<Rightarrow> (case save_jpeg P img 20 of None \<Rightarrow> image_data | Some d \<Rightarrow> d))"
  unfolding compress_image_over_budget [OF over opened] py_range_levels Let_def img [symmetric] ..

lemma compress_image_outcomes:
  assumes over: "max_size_kb * 1024 < int (length image_data)"
      and opened: "image_open P image_data = Some img0"
      and img: "img = (if is_rgba P img0 then flatten_white P img0 else img0)"
  shows "(compress_image P image_data max_size_kb = image_data
          \<or> (\<exists>q. q \<in> set [85, 80, 75, 70, 65, 60, 55, 50, 45, 40, 35, 30, 25, 20]
                 \<and> save_jpeg P img q = Some (compress_image P image_data max_size_kb)))
       \<and> ((\<forall>q. q \<in> set [85, 80, 75, 70, 65, 60, 55, 50, 45, 40, 35, 30, 25, 20]
                 \<longrightarrow> save_jpeg P img q \<noteq> None)
            \<longrightarrow> (\<exists>q. q \<in> set [85, 80, 75, 70, 65, 60, 55, 50, 45, 40, 35, 30, 25, 20]
                 \<and> save_jpeg P img q = Some (compress_image P image_data max_size_kb)))
       \<and> (\<forall>q. q \<in> set [85, 80, 75, 70, 65, 60, 55, 50, 45, 40, 35, 30, 25, 20]
               \<and> save_jpeg P img q = None
               \<and> (\<forall>q'. q' \<in> set (takeWhile (\<lambda>x. x \<noteq> q)
                                      [85, 80, 75, 70, 65, 60, 55, 50, 45, 40, 35, 30, 25, 20])
                      \<longrightarrow> (\<exists>d. save_jpeg P img q' = Some d
                                \<and> max_size_kb * 1024 < int (length d)))
            \<longrightarrow> compress_image P image_data max_size_kb = image_data)"
proof -
  define lv :: "int list" where "lv = [85, 80, 75, 70, 65, 60, 55, 50, 45, 40, 35, 30, 25]"
  define al :: "int list" where "al = lv @ [20]"
  have al: "[85, 80, 75, 70, 65, 60, 55, 50, 45, 40, 35, 30, 25, 20] = al"
    by (simp add: al_def lv_def)
  have sub: "q \<in> set al" if "q \<in> set lv" for q using that by (simp add: al_def)
  have last: "20 \<in> set al" by (simp add: al_def)
  have split: "q \<in> set lv \<or> q = 20" if "q \<in> set al" for q using that by (auto simp: al_def)
  have n20: "20 \<notin> set lv" by (simp add: lv_def)
  let ?b = "max_size_kb * 1024"
  let ?c = "compress_image P image_data max_size_kb"
  note c = compress_image_cases [OF over opened img, folded lv_def]
  have A: "?c = image_data \<or> (\<exists>q. q \<in> set al \<and> save_jpeg P img q = Some ?c)"
  proof (cases "quality_loop P img ?b lv")
    case (Fits d)
    with c have "?c = d" by simp
    moreover from quality_loop_fits [OF Fits] obtain q where "q \<in> set lv" "save_jpeg P img q = Some d"
      by blast
    ultimately have "\<exists>q. q \<in> set al \<and> save_jpeg P img q = Some ?c"
      using sub by blast
    then show ?thesis ..
  next
    case Raised
    with c show ?thesis by simp
  next
    case Exhausted
    show ?thesis
    proof (cases "save_jpeg P img 20")
      case None
      with c Exhausted show ?thesis by simp
    next
      case (Some d)
      with c Exhausted have "save_jpeg P img 20 = Some ?c" by simp
      with last have "\<exists>q. q \<in> set al \<and> save_jpeg P img q = Some ?c" by blast
      then show ?thesis ..
    qed
  qed
  have B: "\<exists>q. q \<in> set al \<and> save_jpeg P img q = Some ?c"
    if ok: "\<forall>q. q \<in> set al \<longrightarrow> save_jpeg P img q \<noteq> None"
  proof (cases "quality_loop P img ?b lv")
    case (Fits d)
    with c have "?c = d" by simp
    moreover from quality_loop_fits [OF Fits] obtain q where "q \<in> set lv" "save_jpeg P img q = Some d"
      by blast
    ultimately show ?thesis using sub by blast
  next
    case Raised
    from quality_loop_raised_some [OF Raised] obtain q where "q \<in> set lv" "save_jpeg P img q = None"
      by blast
    with ok sub have False by blast
    then show ?thesis ..
  next
    case Exhausted
    from ok last obtain d where d: "save_jpeg P img 20 = Some d" by blast
    with c Exhausted have "save_jpeg P img 20 = Some ?c" by simp
    with last show ?thesis by blast
  qed
  have C: "?c = image_data"
    if q: "q \<in> set al" and n: "save_jpeg P img q = None"
      and before: "\<forall>q'. q' \<in> set (takeWhile (\<lambda>x. x \<noteq> q) al)
                      \<longrightarrow> (\<exists>d. save_jpeg P img q' = Some d \<and> ?b < int (length d))"
    for q
  proof (cases "q \<in> set lv")
    case True
    then have "takeWhile (\<lambda>x. x \<noteq> q) al = takeWhile (\<lambda>x. x \<noteq> q) lv"
      unfolding al_def by (intro takeWhile_append1 [of q]) simp_all
    with before have "\<forall>q'. q' \<in> set (takeWhile (\<lambda>x. x \<noteq> q) lv)
                      \<longrightarrow> (\<exists>d. save_jpeg P img q' = Some d \<and> ?b < int (length d))"
      by simp
    from quality_loop_raised [OF True n this] c show ?thesis by simp
  next
    case False
    with split [OF q] have q20: "q = 20" by simp
    have "takeWhile (\<lambda>x. x \<noteq> 20) al = lv"
      unfolding al_def by (subst takeWhile_append2) (use n20 in auto)
    with before have "\<forall>q'. q' \<in> set lv
                      \<longrightarrow> (\<exists>d. save_jpeg P img q' = Some d \<and> ?b < int (length d))"
      unfolding q20 by simp
    from quality_loop_exhausted [OF this] c n q20 show ?thesis by simp
  qed
  from A B C show ?thesis unfolding al by blast
qed

lemma attempt_stored_bytes:
  assumes "\<not> path_exists w save_path"
      and "net w url = Reply status image_data content_type # rest"
      and "attempt P w url save_path = (True, w')"
  shows "files w' save_path
           = Some (if py_in ''svg'' (lower content_type) then image_data
                   else compress_image P image_data 500)"
proof -
  let ?w1 = "w\<lparr>net := (net w)(url := rest), trace := trace w @ [Sleep 500, Get url]\<rparr>"
  let ?data = "if py_in ''svg'' (lower content_type) then image_data
                   else compress_image P image_data 500"
  have g: "http_get (sleep 500 w) url = (Reply status image_data content_type, ?w1)"
    using assms(2) by (simp add: http_get_def sleep_def)
  have ok: "\<not> (400 \<le> status \<and> status < 600)" "\<not> length image_data < 100"
    using attempt_rejected [OF assms(1) g, of P] assms(3) by auto
  note f = attempt_accepted [OF assms(1) g ok, of P]
  obtain w2 where m: "mkdir_parents ?w1 (butlast save_path) = Some w2"
    using f assms(3) by (cases "mkdir_parents ?w1 (butlast save_path)") auto
  have "write_file w2 save_path ?data = Some w'"
    using f assms(3) m by (cases "write_file w2 save_path ?data") auto
  from write_file_effect [OF this] show ?thesis by simp
qed

text \<open>
  Claim C3, as the spec states it, fails: after the levels 85, 80, ..., 25 the program
  encodes once more, at quality 20, and returns that. Here every level from 85 down to
  25 is over the budget, and the result is the encoding at quality 20 (600000 bytes),
  not the one at quality 25 (750000 bytes).
\<close>

theorem compress_image_floor_counterexample:
  "500 * 1024 < int (length huge_payload)
   \<and> image_open example_pil huge_payload = Some huge_payload
   \<and> list_all (\<lambda>q. save_jpeg example_pil huge_payload q = Some (replicate (nat q * 30000) (CHR ''j'')))
        [85, 80, 75, 70, 65, 60, 55, 50, 45, 40, 35, 30, 25, 20]
   \<and> compress_image example_pil huge_payload 500 = replicate 600000 (CHR ''j'')
   \<and> compress_image example_pil huge_payload 500 \<noteq> replicate 750000 (CHR ''j'')"
  by (simp add: compress_image_def example_pil_def huge_payload_length py_range_levels replicate_eq_replicate)


text \<open>
  Claim C3, amended. For a payload over the budget that decodes, and an encoder that
  does not raise (\<open>enc q\<close> is its output at quality \<open>q\<close> for the image, flattened onto
  white if it has an alpha channel): the result is the encoding at the first of the
  levels 85, 80, ..., 25 that is within the budget, and the encoding at quality 20 if
  none is.
\<close>

theorem compress_image_quality_ladder:
  assumes over: "max_size_kb * 1024 < int (length image_data)"
      and opened: "image_open P image_data = Some img0"
      and img: "img = (if is_rgba P img0 then flatten_white P img0 else img0)"
      and enc: "\<forall>q. save_jpeg P img q = Some (enc q)"
  shows "compress_image P image_data max_size_kb =
           (case find (\<lambda>q. int (length (enc q)) \<le> max_size_kb * 1024)
                      [85, 80, 75, 70, 65, 60, 55, 50, 45, 40, 35, 30, 25] of
              Some q \<Rightarrow> enc q
            | None \<Rightarrow> enc 20)"
proof -
  let ?levels = "[85, 80, 75, 70, 65, 60, 55, 50, 45, 40, 35, 30, 25] :: int list"
  let ?fits = "\<lambda>q. int (length (enc q)) \<le> max_size_kb * 1024"
  have loop: "quality_loop P img (max_size_kb * 1024) ?levels =
     (case find ?fits ?levels of Some q \<Rightarrow> Fits (enc q) | None \<Rightarrow> Exhausted)"
    by (rule quality_loop_find [OF enc])
  have c: "compress_image P image_data max_size_kb =
      (case quality_loop P img (max_size_kb * 1024) ?levels of
                      Fits compressed_data \<Rightarrow> compressed_data
                    | Raised \<Rightarrow> image_data
                    | Exhausted \<Rightarrow> enc 20)"
    unfolding compress_image_over_budget [OF over opened] py_range_levels Let_def img [symmetric]
    using enc by simp
  show ?thesis
  proof (cases "find ?fits ?levels")
    case None
    with c loop show ?thesis by simp
  next
    case (Some q)
    with c loop show ?thesis by simp
  qed
qed


theorem compress_image_quality_ladder_witness:
  "500 * 1024 < int (length big_payload)
   \<and> image_open example_pil big_payload = Some big_payload
   \<and> compress_image example_pil big_payload 500 = replicate 500000 (CHR ''j'')"
proof -
  have o: "500 * 1024 < int (length big_payload)" by (simp add: big_payload_length)
  have i: "image_open example_pil big_payload = Some big_payload" by (simp add: example_pil_def)
  have g: "big_payload = (if is_rgba example_pil big_payload then flatten_white example_pil big_payload else big_payload)"
    by (simp add: example_pil_def)
  have e: "\<forall>q. save_jpeg example_pil big_payload q = Some (replicate (nat q * 10000) (CHR ''j''))"
    by (simp add: example_pil_def big_payload_length)
  from compress_image_quality_ladder [OF o i g e] o i show ?thesis by simp
qed


text \<open>
  Claim C10, as stated, fails where the encoder raises: the \<open>except\<close> branch returns
  the original bytes, which are no JPEG encoding. (Pillow decodes palette images, as
  most GIF and many PNG files are, and refuses to write them as JPEG.)
\<close>

theorem compress_image_not_jpeg_counterexample:
  "500 * 1024 < int (length big_payload)
   \<and> image_open palette_pil big_payload = Some big_payload
   \<and> compress_image palette_pil big_payload 500 = big_payload
   \<and> \<not> (\<exists>q. save_jpeg palette_pil big_payload q = Some (compress_image palette_pil big_payload 500))"
  by (simp add: compress_image_def palette_pil_def example_pil_def big_payload_length py_range_levels)


text \<open>
  Claim C10, amended. For a payload over the budget that decodes, \<open>compress_image\<close>
  returns either the payload itself or the JPEG encoding of the image at one of the
  qualities 85, 80, ..., 25, 20, whatever the payload's own format. It is a JPEG
  encoding whenever no \<open>save\<close> raises. It is the payload itself whenever a \<open>save\<close>
  that the loop reaches raises (the levels before it were encoded and were over the
  budget): that is the \<open>except\<close> branch. The name under which the fetcher stores the
  result is made from the URL alone: for a URL whose path ends in an image extension
  the name ends in that extension (lower-cased), and the file stored under that name
  by a successful attempt with a content type other than SVG holds exactly what
  \<open>compress_image\<close> returned, so a \<open>.png\<close> name can hold JPEG bytes.
\<close>

theorem compress_image_jpeg_under_url_name:
  assumes over: "max_size_kb * 1024 < int (length image_data)"
      and opened: "image_open P image_data = Some img0"
      and img: "img = (if is_rgba P img0 then flatten_white P img0 else img0)"
      and path: "unquoted_path L url = Some path"
      and sp: "splitext (basename path) = (name0, ext)"
      and ext: "lower ext \<in> set image_exts"
  shows "(compress_image P image_data max_size_kb = image_data
          \<or> (\<exists>q. q \<in> set [85, 80, 75, 70, 65, 60, 55, 50, 45, 40, 35, 30, 25, 20]
                 \<and> save_jpeg P img q = Some (compress_image P image_data max_size_kb)))
       \<and> ((\<forall>q. q \<in> set [85, 80, 75, 70, 65, 60, 55, 50, 45, 40, 35, 30, 25, 20]
                 \<longrightarrow> save_jpeg P img q \<noteq> None)
            \<longrightarrow> (\<exists>q. q \<in> set [85, 80, 75, 70, 65, 60, 55, 50, 45, 40, 35, 30, 25, 20]
                 \<and> save_jpeg P img q = Some (compress_image P image_data max_size_kb)))
       \<and> (\<forall>q. q \<in> set [85, 80, 75, 70, 65, 60, 55, 50, 45, 40, 35, 30, 25, 20]
               \<and> save_jpeg P img q = None
               \<and> (\<forall>q'. q' \<in> set (takeWhile (\<lambda>x. x \<noteq> q)
                                      [85, 80, 75, 70, 65, 60, 55, 50, 45, 40, 35, 30, 25, 20])
                      \<longrightarrow> (\<exists>d. save_jpeg P img q' = Some d
                                \<and> max_size_kb * 1024 < int (length d)))
            \<longrightarrow> compress_image P image_data max_size_kb = image_data)
       \<and> generate_filename L url ct
           = Some (take 20 (sanitize_filename name0) @ ''_'' @ take 12 (md5_hexdigest L url) @ lower ext)
       \<and> (\<forall>w status content_type rest folder name w'.
             max_size_kb = 500
           \<and> generate_filename L url None = Some name
           \<and> \<not> path_exists w (folder @ [name])
           \<and> net w url = Reply status image_data content_type # rest
           \<and> \<not> py_in ''svg'' (lower content_type)
           \<and> attempt P w url (folder @ [name]) = (True, w')
           \<longrightarrow> files w' (folder @ [name]) = Some (compress_image P image_data max_size_kb)
               \<and> (\<exists>stem. name = stem @ lower ext))"
proof -
  note abc = compress_image_outcomes [OF over opened img]
  note gen = generate_filename_keeps_url_ext [OF path sp ext]
  have D: "files w' (folder @ [name]) = Some (compress_image P image_data max_size_kb)
               \<and> (\<exists>stem. name = stem @ lower ext)"
    if "max_size_kb = 500" "generate_filename L url None = Some name"
       "\<not> path_exists w (folder @ [name])"
       "net w url = Reply status image_data content_type # rest"
       "\<not> py_in ''svg'' (lower content_type)"
       "attempt P w url (folder @ [name]) = (True, w')"
    for w status content_type rest folder name w'
  proof -
    have "files w' (folder @ [name]) = Some (compress_image P image_data max_size_kb)"
      using attempt_stored_bytes [OF that(3,4,6)] that(1,5) by simp
    moreover have "name = (take 20 (sanitize_filename name0) @ ''_'' @ take 12 (md5_hexdigest L url)) @ lower ext"
      using gen [of None] that(2) by simp
    ultimately show ?thesis by blast
  qed
  from abc gen [of ct] D show ?thesis by blast
qed


theorem compress_image_jpeg_under_url_name_witness:
  "500 * 1024 < int (length big_payload)
   \<and> image_open example_pil big_payload = Some big_payload
   \<and> unquoted_path example_lib example_url = Some ''/a.png''
   \<and> splitext (basename ''/a.png'') = (''a'', ''.png'')
   \<and> lower ''.png'' \<in> set image_exts
   \<and> generate_filename example_lib example_url None = Some ''a_d41d8cd98f00.png''
   \<and> save_jpeg example_pil big_payload 50 = Some (replicate 500000 (CHR ''j''))
   \<and> files (snd (attempt example_pil
                     (example_world [(example_url, [Reply 200 big_payload ''image/png''])] [])
                     example_url ([''docs'', ''images''] @ [''a_d41d8cd98f00.png''])))
         ([''docs'', ''images''] @ [''a_d41d8cd98f00.png''])
       = Some (replicate 500000 (CHR ''j''))
   \<and> save_jpeg palette_pil big_payload 85 = None
   \<and> compress_image palette_pil big_payload 500 = big_payload"
proof -
  let ?w = "example_world [(example_url, [Reply 200 big_payload ''image/png''])] []"
  let ?p = "[''docs'', ''images''] @ [''a_d41d8cd98f00.png'']"
  have o: "500 * 1024 < int (length big_payload)" by (simp add: big_payload_length)
  have i: "image_open example_pil big_payload = Some big_payload" by (simp add: example_pil_def)
  have i': "image_open palette_pil big_payload = Some big_payload"
    by (simp add: palette_pil_def example_pil_def)
  have g: "big_payload = (if is_rgba example_pil big_payload then flatten_white example_pil big_payload else big_payload)"
    by (simp add: example_pil_def)
  have g': "big_payload = (if is_rgba palette_pil big_payload then flatten_white palette_pil big_payload else big_payload)"
    by (simp add: palette_pil_def example_pil_def)
  have p: "unquoted_path example_lib example_url = Some ''/a.png''"
    by (simp add: example_lib_def example_url_def startswith_def)
  have s: "splitext (basename ''/a.png'') = (''a'', ''.png'')" by code_simp
  have x: "lower ''.png'' \<in> set image_exts" by code_simp
  have n: "generate_filename example_lib example_url None = Some ''a_d41d8cd98f00.png''"
    unfolding example_url_def by code_simp
  have e50: "save_jpeg example_pil big_payload 50 = Some (replicate 500000 (CHR ''j''))"
    by (simp add: example_pil_def big_payload_length)
  have e85: "save_jpeg palette_pil big_payload 85 = None"
    by (simp add: palette_pil_def)
  have pe: "?p = example_path" by (simp add: example_path_def)
  have ne: "\<not> path_exists ?w ?p"
    by (simp add: path_exists_def example_world_def)
  have nt: "net ?w example_url = Reply 200 big_payload ''image/png'' # []"
    by (simp add: example_world_def)
  have st: "\<not> (400 \<le> (200::nat) \<and> (200::nat) < 600)" by simp
  have ln: "\<not> length big_payload < 100" by (simp add: big_payload_length)
  obtain w2 w3 where
    "mkdir_parents (?w\<lparr>net := (net ?w)(example_url := []), trace := trace ?w @ [Sleep 500, Get example_url]\<rparr>)
        (butlast ?p) = Some w2"
    "write_file w2 ?p (if py_in ''svg'' (lower ''image/png'') then big_payload
                else compress_image example_pil big_payload 500) = Some w3"
    unfolding pe using example_world_stores by blast
  then have a: "attempt example_pil ?w example_url ?p = (True, w3)"
    by (rule attempt_stores [OF ne nt st ln])
  note t1 = compress_image_jpeg_under_url_name [OF o i g p s x, of None]
  from t1 n ne nt svg_marker(2) a
  have "files w3 ?p = Some (compress_image example_pil big_payload 500)"
    by blast
  then have f: "files (snd (attempt example_pil ?w example_url ?p)) ?p = Some (replicate 500000 (CHR ''j''))"
    using a by (simp add: compress_big_payload)
  note t2 = compress_image_jpeg_under_url_name [OF o i' g' p s x, of None]
  have "takeWhile (\<lambda>x. x \<noteq> 85) [85, 80, 75, 70, 65, 60, 55, 50, 45, 40, 35, 30, 25, 20 :: int] = []"
    by simp
  with t2 e85 have c: "compress_image palette_pil big_payload 500 = big_payload"
    by (metis list.set_intros(1) empty_iff empty_set)
  from o i p s x n e50 f e85 c show ?thesis by blast
qed

section \<open>Properties of the worker pool\<close>

lemma submitted_append: "submitted (xs @ ys) = submitted xs @ submitted ys"
  by (induction xs rule: submitted.induct) simp_all

lemma failed_effect:
  assumes "failed mr r w = (ph, w')"
  shows "(\<exists>es. trace w' = trace w @ es \<and> submitted es = []) \<and> dirs w' = dirs w \<and> files w' = files w"
  using assms by (auto simp: failed_def sleep_def split: if_splits)

lemma task_step_effect:
  assumes "task_step P mr url p ph w = (ph', w')"
  shows "(\<exists>es. trace w' = trace w @ es \<and> submitted es = []) \<and> dirs w \<subseteq> dirs w'"
proof (cases ph)
  case Queued
  with assms show ?thesis by auto
next
  case (Checking r)
  with assms show ?thesis by (auto split: if_splits)
next
  case (Sleeping r)
  with assms show ?thesis by (auto simp: sleep_def)
next
  case (Getting r)
  obtain resp w1 where g: "http_get w url = (resp, w1)" by (cases "http_get w url")
  then have w1: "trace w1 = trace w @ [Get url]" "dirs w1 = dirs w"
    by (auto simp: http_get_def split: list.splits)
  show ?thesis
  proof (cases "\<exists>d. ph' = Making r d \<and> w' = w1")
    case True
    with w1 show ?thesis by auto
  next
    case False
    then have "failed mr r w1 = (ph', w')"
      using assms Getting g by (auto split: response.splits if_splits)
    from failed_effect [OF this] w1 show ?thesis by auto
  qed
next
  case (Making r d)
  show ?thesis
  proof (cases "mkdir_parents w (butlast p)")
    case None
    then have "failed mr r w = (ph', w')" using assms Making by simp
    from failed_effect [OF this] show ?thesis by auto
  next
    case (Some w1)
    then have "w' = w1" using assms Making by simp
    with Some show ?thesis by (auto simp: mkdir_parents_def split: if_splits)
  qed
next
  case (Writing r d)
  show ?thesis
  proof (cases "write_file w p d")
    case None
    then have "failed mr r w = (ph', w')" using assms Writing by simp
    from failed_effect [OF this] show ?thesis by auto
  next
    case (Some w1)
    then have "w' = w1" using assms Writing by simp
    with Some show ?thesis by (auto simp: write_file_def split: if_splits)
  qed
next
  case (Finished b)
  with assms show ?thesis by auto
qed

declare finish.simps [simp del]

lemma finish_unfold:
  "finish P mr url p ph w =
     (case ph of Finished b \<Rightarrow> (b, w)
      | _ \<Rightarrow> finish P mr url p (fst (task_step P mr url p ph w)) (snd (task_step P mr url p ph w)))"
  by (subst finish.simps) (simp split: phase.splits prod.splits)

lemma finish_effect:
  "finish P mr url p ph w = (ok, w') \<Longrightarrow>
     (\<exists>es. trace w' = trace w @ es \<and> submitted es = []) \<and> dirs w \<subseteq> dirs w'"
proof (induction P mr url p ph w arbitrary: ok w' rule: finish.induct)
  case (1 P mr url p ph w)
  show ?case
  proof (cases "\<exists>b. ph = Finished b")
    case True
    then show ?thesis using "1.prems" by (auto simp: finish_unfold [of P mr url p ph])
  next
    case False
    obtain ph1 w1 where s: "task_step P mr url p ph w = (ph1, w1)"
      by (cases "task_step P mr url p ph w")
    have "finish P mr url p ph w = finish P mr url p ph1 w1"
      using False s by (subst finish_unfold) (cases ph; simp)
    then have f: "finish P mr url p ph1 w1 = (ok, w')"
      using "1.prems" by simp
    from task_step_effect [OF s] obtain es1 where
      e1: "trace w1 = trace w @ es1" "submitted es1 = []" "dirs w \<subseteq> dirs w1" by blast
    have "(\<exists>es. trace w' = trace w1 @ es \<and> submitted es = []) \<and> dirs w1 \<subseteq> dirs w'"
      using False "1.IH" [OF _ s [symmetric] f] by (cases ph) auto
    then obtain es2 where e2: "trace w' = trace w1 @ es2" "submitted es2 = []" "dirs w1 \<subseteq> dirs w'"
      by blast
    have "trace w' = trace w @ (es1 @ es2) \<and> submitted (es1 @ es2) = []"
      using e1 e2 by (simp add: submitted_append)
    then show ?thesis using e1 e2 by blast
  qed
qed

text \<open>
  A call that no other thread interrupts is \<open>download_image\<close>: the steps of the pool
  and the function of the fetcher are two readings of the same code.
\<close>

lemma finish_Finished: "finish P mr url p (Finished b) w = (b, w)"
  by (subst finish.simps) simp

lemma finish_Queued: "finish P mr url p Queued w = finish P mr url p (Checking 0) w"
  by (subst finish.simps) simp

lemma finish_Checking:
  "finish P mr url p (Checking r) w =
     (if path_exists w p then (True, w) else finish P mr url p (Sleeping r) w)"
  by (subst finish.simps) (simp add: finish_Finished)

lemma finish_Sleeping:
  "finish P mr url p (Sleeping r) w = finish P mr url p (Getting r) (sleep 500 w)"
  by (subst finish.simps) simp

lemma finish_failed:
  "(case failed mr r w of (ph, w') \<Rightarrow> finish P mr url p ph w')
     = (if int r < mr then finish P mr url p (Checking (r + 1)) (sleep (1000 * 2 ^ r) w)
        else (False, w))"
  by (simp add: failed_def finish_Finished)

lemma finish_Writing:
  "finish P mr url p (Writing r d) w =
     (case write_file w p d of
        None \<Rightarrow> (if int r < mr then finish P mr url p (Checking (r + 1)) (sleep (1000 * 2 ^ r) w)
                 else (False, w))
      | Some w1 \<Rightarrow> (True, w1))"
  by (subst finish.simps) (simp add: finish_failed finish_Finished split: option.splits)

lemma finish_Making:
  "finish P mr url p (Making r d) w =
     (case mkdir_parents w (butlast p) of
        None \<Rightarrow> (if int r < mr then finish P mr url p (Checking (r + 1)) (sleep (1000 * 2 ^ r) w)
                 else (False, w))
      | Some w1 \<Rightarrow> finish P mr url p (Writing r d) w1)"
  by (subst finish.simps) (simp add: finish_failed split: option.splits)

lemma finish_Getting:
  "finish P mr url p (Getting r) w =
     (case http_get w url of
        (ConnError, w1) \<Rightarrow>
          (if int r < mr then finish P mr url p (Checking (r + 1)) (sleep (1000 * 2 ^ r) w1)
           else (False, w1))
      | (Reply status image_data content_type, w1) \<Rightarrow>
          if (400 \<le> status \<and> status < 600) \<or> length image_data < 100
          then (if int r < mr then finish P mr url p (Checking (r + 1)) (sleep (1000 * 2 ^ r) w1)
                else (False, w1))
          else finish P mr url p
                 (Making r (if \<not> py_in ''svg'' (lower content_type)
                            then compress_image P image_data 500 else image_data)) w1)"
proof -
  obtain resp w1 where g: "http_get w url = (resp, w1)" by (cases "http_get w url")
  show ?thesis
    by (subst finish.simps) (cases resp; auto simp add: g finish_failed)
qed

lemma finish_attempt:
  "finish P mr url p (Checking r) w =
     (case attempt P w url p of
        (True, w1) \<Rightarrow> (True, w1)
      | (False, w1) \<Rightarrow>
          if int r < mr then finish P mr url p (Checking (r + 1)) (sleep (1000 * 2 ^ r) w1)
          else (False, w1))"
proof (cases "path_exists w p")
  case True
  then show ?thesis by (simp add: finish_Checking attempt_def)
next
  case False
  obtain resp w1 where g: "http_get (sleep 500 w) url = (resp, w1)"
    by (cases "http_get (sleep 500 w) url")
  have l: "finish P mr url p (Checking r) w = finish P mr url p (Getting r) (sleep 500 w)"
    using False by (simp add: finish_Checking finish_Sleeping)
  show ?thesis
  proof (cases resp)
    case ConnError
    with g False show ?thesis unfolding l by (simp add: finish_Getting attempt_def)
  next
    case (Reply status image_data content_type)
    show ?thesis
    proof (cases "(400 \<le> status \<and> status < 600) \<or> length image_data < 100")
      case True
      with g False Reply show ?thesis unfolding l
        by (auto simp add: finish_Getting attempt_def)
    next
      case ok: False
      let ?d = "if \<not> py_in ''svg'' (lower content_type)
                then compress_image P image_data 500 else image_data"
      have m: "finish P mr url p (Getting r) (sleep 500 w) = finish P mr url p (Making r ?d) w1"
        using g Reply ok by (auto simp add: finish_Getting)
      show ?thesis
      proof (cases "mkdir_parents w1 (butlast p)")
        case None
        with g False Reply ok show ?thesis unfolding l m
          by (auto simp add: finish_Making attempt_def Let_def)
      next
        case (Some w2)
        with g False Reply ok show ?thesis unfolding l m
          by (cases "write_file w2 p ?d") (auto simp add: finish_Making finish_Writing attempt_def Let_def)
      qed
    qed
  qed
qed

lemma finish_download_image:
  "finish P mr url p (Checking r) w = download_image P mr w url p r"
proof (induction P mr w url p r rule: download_image.induct)
  case (1 P mr w url p r)
  obtain a w1 where a: "attempt P w url p = (a, w1)" by (cases "attempt P w url p")
  show ?case
  proof (cases "\<not> a \<and> int r < mr")
    case True
    then have "finish P mr url p (Checking (r + 1)) (sleep (1000 * 2 ^ r) w1)
                 = download_image P mr (sleep (1000 * 2 ^ r) w1) url p (r + 1)"
      using "1.IH" [OF a [symmetric]] by simp
    with True a show ?thesis
      by (simp add: finish_attempt [of P mr url p r w] download_image_unfold [OF a, of mr r])
  next
    case False
    with a show ?thesis
      by (auto simp add: finish_attempt [of P mr url p r w] download_image_unfold [OF a, of mr r])
  qed
qed

lemma submit_rest_effect:
  "trace (submit_rest ts w) = trace w @ map (\<lambda>(url, original_text, local_path). Submit url local_path) ts
   \<and> dirs (submit_rest ts w) = dirs w \<and> files (submit_rest ts w) = files w"
  by (induction ts w rule: submit_rest.induct) simp_all

lemma submitted_Submits:
  "submitted (map (\<lambda>(url, original_text, local_path). Submit url local_path) ts)
     = map (\<lambda>(url, original_text, local_path). (url, local_path)) ts"
  by (induction ts) auto

lemma finish_all_effect:
  "finish_all P mr tps w = (results, w') \<Longrightarrow>
     (\<exists>es. trace w' = trace w @ es \<and> submitted es = []) \<and> dirs w \<subseteq> dirs w'"
proof (induction tps arbitrary: w results w')
  case Nil
  then show ?case by simp
next
  case (Cons tp tps)
  obtain url original_text local_path ph where tp: "tp = ((url, original_text, local_path), ph)"
    by (cases tp) auto
  obtain ok w1 where f: "finish P mr url local_path ph w = (ok, w1)"
    by (cases "finish P mr url local_path ph w")
  obtain rs w2 where r: "finish_all P mr tps w1 = (rs, w2)"
    by (cases "finish_all P mr tps w1")
  have w': "w' = w2" using Cons.prems tp f r by simp
  from finish_effect [OF f] obtain es1 where
    e1: "trace w1 = trace w @ es1" "submitted es1 = []" "dirs w \<subseteq> dirs w1" by blast
  from Cons.IH [OF r] obtain es2 where
    e2: "trace w2 = trace w1 @ es2" "submitted es2 = []" "dirs w1 \<subseteq> dirs w2" by blast
  have "trace w2 = trace w @ (es1 @ es2) \<and> submitted (es1 @ es2) = []"
    using e1 e2 by (simp add: submitted_append)
  then show ?case unfolding w' using e1 e2 by blast
qed

section \<open>Properties of the coordinator\<close>

lemma drop_take_nth: "i < length xs \<Longrightarrow> drop i (take (Suc i) xs) = [xs ! i]"
  by (simp add: take_Suc_conv_app_nth)

lemma drop_take_append:
  assumes "a \<le> b" "b \<le> c" "c \<le> length xs"
  shows "drop a (take b xs) @ drop b (take c xs) = drop a (take c xs)"
proof -
  have "take c xs = take b xs @ drop b (take c xs)"
    using assms by (metis append_take_drop_id min.absorb1 take_take)
  then have "drop a (take c xs) = drop a (take b xs @ drop b (take c xs))" by simp
  also have "\<dots> = drop a (take b xs) @ drop b (take c xs)" using assms by simp
  finally show ?thesis by simp
qed

lemma pool_step_unfold:
  assumes t: "tasks ! i = (url, original_text, local_path)"
   and k: "task_step P mr url local_path (phs ! i) w = (ph1, w1)"
  shows "pool_step P mr mw tasks i (phs, w)
             = (if i < length phs \<and> i < length tasks
                then (if phs ! i = Queued
                  \<and> (Queued \<in> set (take i phs) \<or> mw \<le> int (length (filter under_way phs))) then (phs, w) else (phs[i := ph1], w1))
                else if i = length phs \<and> i < length tasks
                then (phs @ [Queued], w\<lparr>trace := trace w @ [Submit url local_path]\<rparr>)
                else (phs, w))"
    unfolding pool_step_def by (simp only: t k prod.case)

lemma pool_step_cases:
  assumes s: "pool_step P mr mw tasks i (phs, w) = (phs', w')"
  shows "(\<exists>url original_text local_path ph1.
            i < length phs \<and> tasks ! i = (url, original_text, local_path)
            \<and> task_step P mr url local_path (phs ! i) w = (ph1, w') \<and> phs' = phs[i := ph1])
       \<or> (\<exists>url original_text local_path.
            i = length phs \<and> i < length tasks \<and> tasks ! i = (url, original_text, local_path)
            \<and> phs' = phs @ [Queued] \<and> w' = w\<lparr>trace := trace w @ [Submit url local_path]\<rparr>)
       \<or> (phs' = phs \<and> w' = w)"
proof -
  obtain url original_text local_path where t: "tasks ! i = (url, original_text, local_path)"
    by (cases "tasks ! i")
  obtain ph1 w1 where k: "task_step P mr url local_path (phs ! i) w = (ph1, w1)"
    by (cases "task_step P mr url local_path (phs ! i) w")
  note u = pool_step_unfold [OF t k, of mw]
  show ?thesis
  proof (cases "i < length phs \<and> i < length tasks")
    case True
    show ?thesis
    proof (cases "phs ! i = Queued
                  \<and> (Queued \<in> set (take i phs) \<or> mw \<le> int (length (filter under_way phs)))")
      case b: True
      have "(phs', w') = (phs, w)" using s u True b by simp
      then show ?thesis by simp
    next
      case b: False
      have "(phs', w') = (phs[i := ph1], w1)" using s u True b by simp
      then have "phs' = phs[i := ph1]" "w' = w1" by simp_all
      with t k True show ?thesis by blast
    qed
  next
    case False
    show ?thesis
    proof (cases "i = length phs \<and> i < length tasks")
      case b: True
      have "(phs', w') = (phs @ [Queued], w\<lparr>trace := trace w @ [Submit url local_path]\<rparr>)"
        using s u False b by simp
      then have "phs' = phs @ [Queued]" "w' = w\<lparr>trace := trace w @ [Submit url local_path]\<rparr>"
        by simp_all
      with t b show ?thesis by blast
    next
      case b: False
      have "(phs', w') = (phs, w)" using s u False b by simp
      then show ?thesis by simp
    qed
  qed
qed

lemma pool_step_effect:
  assumes s: "pool_step P mr mw tasks i (phs, w) = (phs', w')" and l: "length phs \<le> length tasks"
  shows "length phs' \<le> length tasks \<and> length phs \<le> length phs'
       \<and> (\<exists>es. trace w' = trace w @ es
               \<and> submitted es = map (\<lambda>(url, original_text, local_path). (url, local_path))
                                    (drop (length phs) (take (length phs') tasks)))
       \<and> dirs w \<subseteq> dirs w'"
proof -
  consider (step) url local_path ph1 where
      "i < length phs" "task_step P mr url local_path (phs ! i) w = (ph1, w')" "phs' = phs[i := ph1]"
    | (submit) url original_text local_path where
      "i = length phs" "i < length tasks" "tasks ! i = (url, original_text, local_path)"
      "phs' = phs @ [Queued]" "w' = w\<lparr>trace := trace w @ [Submit url local_path]\<rparr>"
    | (idle) "phs' = phs" "w' = w"
    using pool_step_cases [OF s] by blast
  then show ?thesis
  proof cases
    case step
    from task_step_effect [OF step(2)] obtain es where
      "trace w' = trace w @ es" "submitted es = []" "dirs w \<subseteq> dirs w'" by blast
    moreover have "length phs' = length phs" using step(3) by simp
    ultimately show ?thesis using l by simp
  next
    case submit
    have "drop (length phs) (take (Suc (length phs)) tasks) = [tasks ! i]"
      using submit(1,2) drop_take_nth [of i tasks] by simp
    moreover have "trace w' = trace w @ [Submit url local_path]" "dirs w' = dirs w"
      using submit(5) by simp_all
    moreover have "submitted [Submit url local_path] = [(url, local_path)]" by simp
    ultimately show ?thesis using submit(1-4) by simp
  next
    case idle
    then show ?thesis using l by simp
  qed
qed

lemma pool_steps_effect:
  "fold (pool_step P mr mw tasks) sched (phs, w) = (phs', w') \<Longrightarrow> length phs \<le> length tasks \<Longrightarrow>
     length phs' \<le> length tasks \<and> length phs \<le> length phs'
       \<and> (\<exists>es. trace w' = trace w @ es
               \<and> submitted es = map (\<lambda>(url, original_text, local_path). (url, local_path))
                                    (drop (length phs) (take (length phs') tasks)))
       \<and> dirs w \<subseteq> dirs w'"
proof (induction sched arbitrary: phs w)
  case Nil
  then show ?case by simp
next
  case (Cons i sched)
  obtain phs1 w1 where s: "pool_step P mr mw tasks i (phs, w) = (phs1, w1)"
    by (cases "pool_step P mr mw tasks i (phs, w)")
  from pool_step_effect [OF s Cons.prems(2)] obtain es1 where
    e1: "length phs1 \<le> length tasks" "length phs \<le> length phs1" "trace w1 = trace w @ es1"
        "submitted es1 = map (\<lambda>(url, original_text, local_path). (url, local_path))
                             (drop (length phs) (take (length phs1) tasks))"
        "dirs w \<subseteq> dirs w1" by blast
  have f: "fold (pool_step P mr mw tasks) sched (phs1, w1) = (phs', w')"
    using Cons.prems(1) s by simp
  from Cons.IH [OF f e1(1)] obtain es2 where
    e2: "length phs' \<le> length tasks" "length phs1 \<le> length phs'" "trace w' = trace w1 @ es2"
        "submitted es2 = map (\<lambda>(url, original_text, local_path). (url, local_path))
                             (drop (length phs1) (take (length phs') tasks))"
        "dirs w1 \<subseteq> dirs w'" by blast
  have "submitted (es1 @ es2) = map (\<lambda>(url, original_text, local_path). (url, local_path))
                                    (drop (length phs) (take (length phs') tasks))"
    unfolding submitted_append e1(4) e2(4) map_append [symmetric]
    using drop_take_append [OF e1(2) e2(2) e2(1)] by simp
  moreover have "trace w' = trace w @ (es1 @ es2)" using e1 e2 by simp
  ultimately show ?case using e1 e2 by (meson order_trans)
qed

lemma run_pool_effect:
  assumes "run_pool P mr mw sched tasks w = (results, w')"
  shows "(\<exists>es. trace w' = trace w @ es
               \<and> submitted es = map (\<lambda>(url, original_text, local_path). (url, local_path)) tasks)
       \<and> dirs w \<subseteq> dirs w'"
proof -
  obtain phs1 w1 where f: "fold (pool_step P mr mw tasks) sched ([], w) = (phs1, w1)"
    by (cases "fold (pool_step P mr mw tasks) sched ([], w)")
  from pool_steps_effect [OF f] obtain es1 where
    e1: "length phs1 \<le> length tasks" "trace w1 = trace w @ es1"
        "submitted es1 = map (\<lambda>(url, original_text, local_path). (url, local_path))
                             (take (length phs1) tasks)"
        "dirs w \<subseteq> dirs w1" by auto
  let ?w2 = "submit_rest (drop (length phs1) tasks) w1"
  have d: "finish_all P mr (zip tasks (phs1 @ replicate (length tasks - length phs1) Queued)) ?w2
             = (results, w')"
    using assms f by (simp add: run_pool_def drain_def)
  from finish_all_effect [OF d] obtain es3 where
    e3: "trace w' = trace ?w2 @ es3" "submitted es3 = []" "dirs ?w2 \<subseteq> dirs w'" by blast
  let ?es2 = "map (\<lambda>(url, original_text, local_path). Submit url local_path) (drop (length phs1) tasks)"
  have e2: "trace ?w2 = trace w1 @ ?es2" "dirs ?w2 = dirs w1"
    using submit_rest_effect [of "drop (length phs1) tasks" w1] by simp_all
  have "submitted (es1 @ ?es2 @ es3)
          = map (\<lambda>(url, original_text, local_path). (url, local_path)) (take (length phs1) tasks)
            @ map (\<lambda>(url, original_text, local_path). (url, local_path)) (drop (length phs1) tasks)"
    unfolding submitted_append e1(3) e3(2) submitted_Submits by simp
  then have "submitted (es1 @ ?es2 @ es3)
          = map (\<lambda>(url, original_text, local_path). (url, local_path)) tasks"
    by (simp only: map_append [symmetric] append_take_drop_id)
  moreover have "trace w' = trace w @ (es1 @ ?es2 @ es3)" using e1 e2 e3 by simp
  moreover have "dirs w \<subseteq> dirs w'" using e1 e2 e3 by simp
  ultimately show ?thesis by blast
qed

lemma generate_filename_None:
  "generate_filename L url ct = None \<longleftrightarrow> unquoted_path L url = None"
proof (cases "unquoted_path L url")
  case None
  then show ?thesis by (simp add: generate_filename_raises)
next
  case (Some path)
  then show ?thesis using generate_filename_shape [OF Some, of ct] by auto
qed

lemma submit_all_tasks:
  "submit_all L folder refs
     = (map (\<lambda>(url, t). (url, t, folder @ [the (generate_filename L url None)]))
            (takeWhile (\<lambda>(url, t). unquoted_path L url \<noteq> None) refs),
        list_all (\<lambda>(url, t). unquoted_path L url \<noteq> None) refs)"
proof (induction refs)
  case Nil
  then show ?case by simp
next
  case (Cons x refs)
  obtain url t where x: "x = (url, t)" by (cases x)
  show ?case
  proof (cases "unquoted_path L url")
    case None
    then show ?thesis using x by (simp add: generate_filename_raises)
  next
    case (Some path)
    then obtain name where "generate_filename L url None = Some name"
      using generate_filename_shape by blast
    with Cons x Some show ?thesis by simp
  qed
qed

lemma mkdir_exist_ok_effect:
  "mkdir_exist_ok w p = Some w1 \<Longrightarrow>
     files w1 = files w \<and> dirs w \<subseteq> dirs w1 \<and> trace w1 = trace w \<and> is_dir w1 p"
  by (auto simp: mkdir_exist_ok_def is_dir_def split: if_splits)

lemma process_nothing:
  assumes "read_text w md_file = None
           \<or> (\<exists>content. read_text w md_file = Some content \<and> extract_image_urls content = [])
           \<or> mkdir_exist_ok w (images_folder md_file) = None"
  shows "process_markdown_file L P mr mw sched ac w md_file = ([], w)"
  using assms by (auto simp add: process_markdown_file_def Let_def split: option.splits)

lemma process_no_pool:
  assumes "read_text w md_file = Some content" "extract_image_urls content \<noteq> []"
      and "mkdir_exist_ok w (images_folder md_file) = Some w0" "mw \<le> 0"
  shows "process_markdown_file L P mr mw sched ac w md_file
           = ([], w0\<lparr>trace := trace w0 @ [Mkdir (images_folder md_file)]\<rparr>)"
  using assms by (simp add: process_markdown_file_def Let_def)

lemma process_unfold:
  assumes "read_text w md_file = Some content" and "extract_image_urls content \<noteq> []"
      and "mkdir_exist_ok w (images_folder md_file) = Some w0" and "0 < mw"
      and "submit_all L (images_folder md_file) (extract_image_urls content) = (tasks, complete)"
      and "run_pool P mr mw sched tasks (w0\<lparr>trace := trace w0 @ [Mkdir (images_folder md_file)]\<rparr>)
             = (results, w2)"
  shows "process_markdown_file L P mr mw sched ac w md_file =
           (if \<not> complete then ([], w2)
            else if collect (ac results) = [] then ([], w2)
            else (case write_file w2 md_file (rewrite (collect (ac results)) content) of
                    None \<Rightarrow> ([], w2)
                  | Some w3 \<Rightarrow> (collect (ac results), w3)))"
  using assms by (simp add: process_markdown_file_def Let_def)

lemma process_effect:
  assumes c: "read_text w md_file = Some content" and ne: "extract_image_urls content \<noteq> []"
      and m: "mkdir_exist_ok w (images_folder md_file) = Some w0" and mw: "0 < mw"
      and p: "process_markdown_file L P mr mw sched ac w md_file = (res, w')"
  shows "images_folder md_file \<in> dirs w'
       \<and> (\<exists>es. trace w' = trace w @ Mkdir (images_folder md_file) # es
               \<and> submitted es = map (\<lambda>(url, original_text, local_path). (url, local_path))
                    (fst (submit_all L (images_folder md_file) (extract_image_urls content))))"
proof -
  let ?f = "images_folder md_file"
  let ?w1 = "w0\<lparr>trace := trace w0 @ [Mkdir ?f]\<rparr>"
  obtain tasks complete where s: "submit_all L ?f (extract_image_urls content) = (tasks, complete)"
    by (cases "submit_all L ?f (extract_image_urls content)")
  obtain results w2 where r: "run_pool P mr mw sched tasks ?w1 = (results, w2)"
    by (cases "run_pool P mr mw sched tasks ?w1")
  note m1 = mkdir_exist_ok_effect [OF m]
  from run_pool_effect [OF r] obtain es where
    e: "trace w2 = trace ?w1 @ es"
       "submitted es = map (\<lambda>(url, original_text, local_path). (url, local_path)) tasks"
       "dirs ?w1 \<subseteq> dirs w2" by blast
  have dir1: "?f \<in> dirs ?w1" using m1 by (simp add: is_dir_def images_folder_def)
  have t2: "trace w2 = trace w @ Mkdir ?f # es" using e m1 by simp
  have d2: "?f \<in> dirs w2" using dir1 e by blast
  note u = process_unfold [OF c ne m mw s r, of ac]
  let ?goal = "\<lambda>w'. ?f \<in> dirs w'
       \<and> (\<exists>es. trace w' = trace w @ Mkdir ?f # es
               \<and> submitted es = map (\<lambda>(url, original_text, local_path). (url, local_path)) tasks)"
  have g2: "?goal w2" using t2 d2 e by blast
  have "?goal w'"
  proof (cases "w' = w2")
    case True
    with g2 show ?thesis by simp
  next
    case False
    then obtain w3 where w3: "write_file w2 md_file (rewrite (collect (ac results)) content) = Some w3" "w' = w3"
      using u p by (auto split: if_splits option.splits)
    have "trace w3 = trace w @ Mkdir ?f # (es @ [Written md_file])" "dirs w3 = dirs w2"
      using w3(1) t2 by (auto simp: write_file_def split: if_splits)
    moreover have "submitted (es @ [Written md_file])
                     = map (\<lambda>(url, original_text, local_path). (url, local_path)) tasks"
      using e by (simp add: submitted_append)
    ultimately show ?thesis using d2 w3(2) by blast
  qed
  then show ?thesis using s by simp
qed

text \<open>
  Claim C4. A call of \<open>download_image\<close> whose destination exists returns \<open>True\<close> at
  once and leaves the world as it was: nothing is requested, nothing is written, no
  sleep. That much of the claim holds of every call. But the test is made once, at the
  start of the call, and no lock is held from the test to the write
  (\<open>self.download_lock\<close> is never acquired): a call that found the destination absent
  goes on to \<open>time.sleep(0.5)\<close>, and its write step stores its bytes whatever is under
  the name by then. So a file that is present can be overwritten. In the run below the
  document refers to the same image twice, both calls make their test before either
  writes, the first stores the first response, and the second replaces it with the
  second response.
\<close>

theorem check_then_write_unlocked:
  "(path_exists w save_path \<longrightarrow>
      download_image P max_retries w url save_path retries = (True, w)
      \<and> task_step P max_retries url save_path (Checking retries) w = (Finished True, w))
   \<and> (\<not> path_exists w save_path \<longrightarrow>
        task_step P max_retries url save_path (Checking retries) w = (Sleeping retries, w))
   \<and> (write_file w save_path data \<noteq> None \<longrightarrow>
        fst (task_step P max_retries url save_path (Writing retries data) w) = Finished True
        \<and> files (snd (task_step P max_retries url save_path (Writing retries data) w)) save_path
            = Some data
        \<and> trace (snd (task_step P max_retries url save_path (Writing retries data) w))
            = trace w @ [Written save_path])"
proof -
  have skip: "download_image P max_retries w url save_path retries = (True, w)"
    if "path_exists w save_path"
    using download_image_unfold [OF attempt_skip [OF that]] by simp
  have wr: "fst (task_step P max_retries url save_path (Writing retries data) w) = Finished True
        \<and> files (snd (task_step P max_retries url save_path (Writing retries data) w)) save_path
            = Some data
        \<and> trace (snd (task_step P max_retries url save_path (Writing retries data) w))
            = trace w @ [Written save_path]"
    if nn: "write_file w save_path data \<noteq> None"
  proof -
    obtain w1 where w1: "write_file w save_path data = Some w1" using nn by blast
    then have "files w1 save_path = Some data" "trace w1 = trace w @ [Written save_path]"
      by (auto simp: write_file_def split: if_splits)
    with w1 show ?thesis by simp
  qed
  from skip wr show ?thesis by simp
qed

theorem check_then_write_unlocked_witness:
  "fst race_pool = [Finished True, Writing 0 other_image]
   \<and> files (snd race_pool) example_path = Some small_image
   \<and> path_exists (snd race_pool) example_path
   \<and> write_file (snd race_pool) example_path other_image \<noteq> None
   \<and> fst (task_step example_pil 3 example_url example_path (Writing 0 other_image) (snd race_pool))
       = Finished True
   \<and> files (snd (task_step example_pil 3 example_url example_path (Writing 0 other_image)
                    (snd race_pool))) example_path = Some other_image
   \<and> download_image example_pil 3 (snd race_pool) example_url example_path 0 = (True, snd race_pool)
   \<and> files (snd (process_markdown_file example_lib example_pil 3 5 race_schedule id
                    race_world example_md)) example_path = Some other_image
   \<and> filter (\<lambda>e. e = Written example_path)
        (trace (snd (process_markdown_file example_lib example_pil 3 5 race_schedule id
                       race_world example_md)))
       = [Written example_path, Written example_path]
   \<and> filter (\<lambda>e. e = Written example_path)
        (trace (snd (process_markdown_file example_lib example_pil 3 5 [] id
                       race_world example_md)))
       = [Written example_path]
   \<and> files (snd (process_markdown_file example_lib example_pil 3 5 [] id
                    race_world example_md)) example_path = Some small_image"
proof -
  have a: "fst race_pool = [Finished True, Writing 0 other_image]" by code_simp
  have b: "files (snd race_pool) example_path = Some small_image" by code_simp
  have c: "path_exists (snd race_pool) example_path"
    using b by (simp add: path_exists_def domI)
  have d: "\<not> (example_path = [] \<or> example_path \<in> dirs (snd race_pool)
              \<or> \<not> is_dir (snd race_pool) (butlast example_path)
              \<or> butlast example_path \<in> dom (files (snd race_pool)))"
    by code_simp
  then have e: "write_file (snd race_pool) example_path other_image \<noteq> None"
    unfolding write_file_def by (simp only: if_False) simp
  note t = check_then_write_unlocked
    [of "snd race_pool" example_path example_pil 3 example_url 0 other_image]
  have f: "fst (task_step example_pil 3 example_url example_path (Writing 0 other_image) (snd race_pool))
       = Finished True
   \<and> files (snd (task_step example_pil 3 example_url example_path (Writing 0 other_image)
                    (snd race_pool))) example_path = Some other_image"
    using t e by blast
  have g: "download_image example_pil 3 (snd race_pool) example_url example_path 0 = (True, snd race_pool)"
    using t c by blast
  have h: "files (snd (process_markdown_file example_lib example_pil 3 5 race_schedule id
                    race_world example_md)) example_path = Some other_image"
    by code_simp
  have i: "filter (\<lambda>e. e = Written example_path)
        (trace (snd (process_markdown_file example_lib example_pil 3 5 race_schedule id
                       race_world example_md)))
       = [Written example_path, Written example_path]"
    by code_simp
  have j: "filter (\<lambda>e. e = Written example_path)
        (trace (snd (process_markdown_file example_lib example_pil 3 5 [] id
                       race_world example_md)))
       = [Written example_path]"
    by code_simp
  have k: "files (snd (process_markdown_file example_lib example_pil 3 5 [] id
                    race_world example_md)) example_path = Some small_image"
    by code_simp
  from a b c e f g h i j k show ?thesis by blast
qed

text \<open>
  Claim C5, as stated, fails: the submission loop makes one task for every extracted
  reference and has no test for a URL seen before. Here the document holds the same
  reference twice, and two fetches of the one URL are handed to the pool. When the
  pool takes them one after the other, the second finds the file the first one stored;
  when both make their test before either writes, the URL is requested twice.
\<close>

theorem duplicate_url_fetched_twice_counterexample:
  "map fst (extract_image_urls doc_twice) = [example_url, example_url]
   \<and> submitted (trace (snd (process_markdown_file example_lib example_pil 3 5 [] id
        (example_world [(example_url, [Reply 200 small_image ''image/png''])] doc_twice) example_md)))
      = [(example_url, example_path), (example_url, example_path)]
   \<and> \<not> distinct (map fst (submitted (trace (snd (process_markdown_file example_lib example_pil 3 5 [] id
        (example_world [(example_url, [Reply 200 small_image ''image/png''])] doc_twice) example_md)))))
   \<and> filter is_get (trace (snd (process_markdown_file example_lib example_pil 3 5 race_schedule id
        race_world example_md)))
      = [Get example_url, Get example_url]"
  by code_simp

text \<open>
  Claim C5, amended. The tasks that a call of \<open>process_markdown_file\<close> hands to the
  pool are, in every case: none, when the document cannot be read or decoded, when its
  folder cannot be made, or when \<open>max_workers \<le> 0\<close>; otherwise one for each extracted
  reference, in the order of extraction, to the path \<open>images/<generated name>\<close>, up to
  the first reference whose URL \<open>urlparse\<close> rejects (the loop ends there). A URL that
  is referred to \<open>n\<close> times before that point is handed over \<open>n\<close> times, to the same
  path. This holds for every schedule of the pool.
\<close>

theorem one_fetch_per_reference:
  assumes p: "process_markdown_file L P max_retries max_workers schedule as_completed w md_file = (res, w')"
  shows "submitted (trace w')
           = submitted (trace w)
             @ (case read_text w md_file of
                  None \<Rightarrow> []
                | Some content \<Rightarrow>
                    if mkdir_exist_ok w (images_folder md_file) = None \<or> max_workers \<le> 0 then []
                    else map (\<lambda>(url, t). (url, images_folder md_file @ [the (generate_filename L url None)]))
                             (takeWhile (\<lambda>(url, t). unquoted_path L url \<noteq> None)
                                        (extract_image_urls content)))"
proof (cases "read_text w md_file")
  case None
  then have "w' = w" using p process_nothing [of w md_file L P max_retries max_workers schedule as_completed]
    by simp
  with None show ?thesis by simp
next
  case (Some content)
  show ?thesis
  proof (cases "extract_image_urls content = []")
    case True
    then have "w' = w"
      using p Some process_nothing [of w md_file L P max_retries max_workers schedule as_completed]
      by simp
    with Some True show ?thesis by simp
  next
    case False
    show ?thesis
    proof (cases "mkdir_exist_ok w (images_folder md_file)")
      case None
      then have "w' = w"
        using p process_nothing [of w md_file L P max_retries max_workers schedule as_completed]
        by simp
      with Some None show ?thesis by simp
    next
      case m: (Some w0)
      note m1 = mkdir_exist_ok_effect [OF m]
      show ?thesis
      proof (cases "max_workers \<le> 0")
        case True
        then have "w' = w0\<lparr>trace := trace w0 @ [Mkdir (images_folder md_file)]\<rparr>"
          using p process_no_pool [OF Some False m, of max_workers L P max_retries schedule as_completed]
          by simp
        then have "submitted (trace w') = submitted (trace w)"
          using m1 by (simp add: submitted_append)
        with Some m True show ?thesis by simp
      next
        case mw: False
        then have "0 < max_workers" by simp
        from process_effect [OF Some False m this p] obtain es where
          e: "trace w' = trace w @ Mkdir (images_folder md_file) # es"
             "submitted es = map (\<lambda>(url, original_text, local_path). (url, local_path))
                    (fst (submit_all L (images_folder md_file) (extract_image_urls content)))"
          by blast
        have "submitted es
                = map (\<lambda>(url, t). (url, images_folder md_file @ [the (generate_filename L url None)]))
                      (takeWhile (\<lambda>(url, t). unquoted_path L url \<noteq> None) (extract_image_urls content))"
          unfolding e(2) submit_all_tasks by (simp add: case_prod_unfold comp_def)
        moreover have "submitted (trace w') = submitted (trace w) @ submitted es"
          unfolding e(1) by (simp add: submitted_append)
        ultimately show ?thesis using Some m mw by simp
      qed
    qed
  qed
qed

theorem one_fetch_per_reference_witness:
  "read_text (example_world [] doc_twice) example_md = Some doc_twice
   \<and> mkdir_exist_ok (example_world [] doc_twice) (images_folder example_md) \<noteq> None
   \<and> extract_image_urls doc_twice
        = [(example_url, ''![cat](http://x/a.png)''), (example_url, ''![cat](http://x/a.png)'')]
   \<and> submitted (trace (snd (process_markdown_file example_lib example_pil 0 5 race_schedule id
                               (example_world [] doc_twice) example_md)))
       = [(example_url, example_path), (example_url, example_path)]
   \<and> map fst (extract_image_urls doc_bad_url) = [example_url, ''http://[::1/b.png'', example_url]
   \<and> submitted (trace (snd (process_markdown_file example_lib example_pil 0 5 race_schedule id
                               (example_world [] doc_bad_url) example_md)))
       = [(example_url, example_path)]
   \<and> submitted (trace (snd (process_markdown_file example_lib example_pil 0 0 race_schedule id
                               (example_world [] doc_twice) example_md)))
       = []"
proof -
  let ?w = "example_world [] doc_twice"
  let ?p = "process_markdown_file example_lib example_pil 0 5 race_schedule id ?w example_md"
  let ?v = "example_world [] doc_bad_url"
  let ?q = "process_markdown_file example_lib example_pil 0 5 race_schedule id ?v example_md"
  let ?r = "process_markdown_file example_lib example_pil 0 0 race_schedule id ?w example_md"
  have c: "read_text ?w example_md = Some doc_twice" by code_simp
  have c': "read_text ?v example_md = Some doc_bad_url" by code_simp
  have m: "mkdir_exist_ok ?w (images_folder example_md) \<noteq> None"
    by (simp add: mkdir_exist_ok_def is_dir_def images_folder_def example_md_def example_world_def)
  have m': "mkdir_exist_ok ?v (images_folder example_md) \<noteq> None"
    by (simp add: mkdir_exist_ok_def is_dir_def images_folder_def example_md_def example_world_def)
  have refs: "extract_image_urls doc_twice
                = [(example_url, ''![cat](http://x/a.png)''), (example_url, ''![cat](http://x/a.png)'')]"
    by code_simp
  have refs': "extract_image_urls doc_bad_url
                = [(example_url, ''![a](http://x/a.png)''), (''http://[::1/b.png'', ''![b](http://[::1/b.png)''),
                   (example_url, ''![c](http://x/a.png)'')]"
    by code_simp
  have u: "unquoted_path example_lib example_url = Some ''/a.png''"
    by (simp add: example_lib_def example_url_def startswith_def)
  have u': "unquoted_path example_lib ''http://[::1/b.png'' = None"
    by (simp add: example_lib_def startswith_def)
  have g: "generate_filename example_lib example_url None = Some ''a_d41d8cd98f00.png''"
    by code_simp
  have f: "images_folder example_md @ [''a_d41d8cd98f00.png''] = example_path"
    by (simp add: images_folder_def example_md_def example_path_def)
  have t: "trace ?w = []" "trace ?v = []" by (simp_all add: example_world_def)
  have "?p = (fst ?p, snd ?p)" by simp
  from one_fetch_per_reference [OF this]
  have 1: "submitted (trace (snd ?p)) = [(example_url, example_path), (example_url, example_path)]"
    using m by (simp add: c refs u g f t)
  have "?q = (fst ?q, snd ?q)" by simp
  from one_fetch_per_reference [OF this]
  have 2: "submitted (trace (snd ?q)) = [(example_url, example_path)]"
    using m' by (simp add: c' refs' u u' g f t)
  have "?r = (fst ?r, snd ?r)" by simp
  from one_fetch_per_reference [OF this]
  have 3: "submitted (trace (snd ?r)) = []"
    by (simp add: c t)
  from c m refs 1 2 3 refs' show ?thesis by simp
qed

text \<open>
  Claim C6, as stated, fails: the folder is made as soon as the document has an
  extracted reference, before any download starts. Here the only download fails (no
  request is answered), nothing is replaced, and the folder is there afterwards.
\<close>

theorem folder_without_download_counterexample:
  "fst (process_markdown_file example_lib example_pil 0 5 [] id (example_world [] doc_once) example_md) = []
   \<and> images_folder example_md \<notin> dirs (example_world [] doc_once)
   \<and> images_folder example_md
        \<in> dirs (snd (process_markdown_file example_lib example_pil 0 5 [] id (example_world [] doc_once) example_md))
   \<and> files (snd (process_markdown_file example_lib example_pil 0 5 [] id (example_world [] doc_once) example_md))
        example_path = None"
  by code_simp

text \<open>
  Claim C6, amended. The \<open>images\<close> folder beside a document comes into existence only
  if the document can be read and decoded and has at least one extracted remote
  reference. A document that cannot be read or decoded, or that has no extracted
  reference, or whose folder cannot be made, leaves the world untouched (no folder, the
  text as it was) and yields the empty replacement map. Where there is a reference and
  \<open>mkdir\<close> succeeds, the folder exists from then on, whether or not a download
  succeeds, and the making of the folder is the first thing the call does: every
  submission, request and write of the call comes after it.
\<close>

theorem folder_iff_reference:
  assumes p: "process_markdown_file L P max_retries max_workers schedule as_completed w md_file = (res, w')"
  shows "(images_folder md_file \<in> dirs w' \<and> images_folder md_file \<notin> dirs w
            \<longrightarrow> (\<exists>content. read_text w md_file = Some content \<and> extract_image_urls content \<noteq> []))
       \<and> (read_text w md_file = None
            \<or> (\<exists>content. read_text w md_file = Some content \<and> extract_image_urls content = [])
            \<or> mkdir_exist_ok w (images_folder md_file) = None
            \<longrightarrow> res = [] \<and> w' = w)
       \<and> (\<forall>content w0. read_text w md_file = Some content \<and> extract_image_urls content \<noteq> []
                       \<and> mkdir_exist_ok w (images_folder md_file) = Some w0
            \<longrightarrow> images_folder md_file \<in> dirs w0
                \<and> images_folder md_file \<in> dirs w'
                \<and> (\<exists>rest. trace w' = trace w @ Mkdir (images_folder md_file) # rest))"
proof -
  have none: "res = [] \<and> w' = w"
    if "read_text w md_file = None
        \<or> (\<exists>content. read_text w md_file = Some content \<and> extract_image_urls content = [])
        \<or> mkdir_exist_ok w (images_folder md_file) = None"
    using p process_nothing [OF that, of L P max_retries max_workers schedule as_completed] by simp
  have a: "\<exists>content. read_text w md_file = Some content \<and> extract_image_urls content \<noteq> []"
    if d: "images_folder md_file \<in> dirs w'" "images_folder md_file \<notin> dirs w"
  proof (rule ccontr)
    assume "\<not> ?thesis"
    then have "read_text w md_file = None
        \<or> (\<exists>content. read_text w md_file = Some content \<and> extract_image_urls content = [])"
      by (cases "read_text w md_file") auto
    then have "w' = w" using none by blast
    with d show False by simp
  qed
  have c: "images_folder md_file \<in> dirs w0 \<and> images_folder md_file \<in> dirs w'
           \<and> (\<exists>rest. trace w' = trace w @ Mkdir (images_folder md_file) # rest)"
    if r: "read_text w md_file = Some content" and ne: "extract_image_urls content \<noteq> []"
       and m: "mkdir_exist_ok w (images_folder md_file) = Some w0" for content w0
  proof -
    note m1 = mkdir_exist_ok_effect [OF m]
    have d0: "images_folder md_file \<in> dirs w0"
      using m1 by (simp add: is_dir_def images_folder_def)
    show ?thesis
    proof (cases "max_workers \<le> 0")
      case True
      then have "w' = w0\<lparr>trace := trace w0 @ [Mkdir (images_folder md_file)]\<rparr>"
        using p process_no_pool [OF r ne m, of max_workers L P max_retries schedule as_completed]
        by simp
      then show ?thesis using d0 m1 by simp
    next
      case False
      then have "0 < max_workers" by simp
      from process_effect [OF r ne m this p] d0 show ?thesis by blast
    qed
  qed
  from a none c show ?thesis by blast
qed

theorem folder_iff_reference_witness:
  "read_text (example_world [] ''no pictures, only ![local](b.png)'') example_md
      = Some ''no pictures, only ![local](b.png)''
   \<and> extract_image_urls ''no pictures, only ![local](b.png)'' = []
   \<and> process_markdown_file example_lib example_pil 3 5 race_schedule id
        (example_world [] ''no pictures, only ![local](b.png)'') example_md
      = ([], example_world [] ''no pictures, only ![local](b.png)'')
   \<and> extract_image_urls doc_once \<noteq> []
   \<and> read_text (example_world [] doc_not_utf8) example_md = None
   \<and> process_markdown_file example_lib example_pil 3 5 race_schedule id
        (example_world [] doc_not_utf8) example_md
      = ([], example_world [] doc_not_utf8)
   \<and> read_text (example_world [] doc_once) example_md = Some doc_once
   \<and> images_folder example_md
        \<in> dirs (snd (process_markdown_file example_lib example_pil 0 5 race_schedule id
                        (example_world [] doc_once) example_md))
   \<and> take 1 (trace (snd (process_markdown_file example_lib example_pil 0 5 race_schedule id
                        (example_world [] doc_once) example_md)))
       = [Mkdir (images_folder example_md)]"
proof -
  let ?t = "''no pictures, only ![local](b.png)''"
  let ?p = "process_markdown_file example_lib example_pil 3 5 race_schedule id (example_world [] ?t) example_md"
  let ?u = "process_markdown_file example_lib example_pil 3 5 race_schedule id (example_world [] doc_not_utf8) example_md"
  let ?q = "process_markdown_file example_lib example_pil 0 5 race_schedule id (example_world [] doc_once) example_md"
  have f: "read_text (example_world [] ?t) example_md = Some ?t" by code_simp
  have x: "extract_image_urls ?t = []" by code_simp
  have "?p = (fst ?p, snd ?p)" by simp
  from folder_iff_reference [OF this] f x
  have "fst ?p = [] \<and> snd ?p = example_world [] ?t" by blast
  then have 1: "?p = ([], example_world [] ?t)" by (metis prod.collapse)
  have n: "read_text (example_world [] doc_not_utf8) example_md = None" by code_simp
  have "?u = (fst ?u, snd ?u)" by simp
  from folder_iff_reference [OF this] n
  have "fst ?u = [] \<and> snd ?u = example_world [] doc_not_utf8" by blast
  then have 2: "?u = ([], example_world [] doc_not_utf8)" by (metis prod.collapse)
  have g: "read_text (example_world [] doc_once) example_md = Some doc_once" by code_simp
  have y: "extract_image_urls doc_once \<noteq> []" by code_simp
  obtain w0 where m: "mkdir_exist_ok (example_world [] doc_once) (images_folder example_md) = Some w0"
    by (simp add: mkdir_exist_ok_def is_dir_def images_folder_def example_md_def example_world_def)
  have "?q = (fst ?q, snd ?q)" by simp
  from folder_iff_reference [OF this] g y m
  have 3: "images_folder example_md \<in> dirs (snd ?q)
           \<and> (\<exists>rest. trace (snd ?q) = trace (example_world [] doc_once) @ Mkdir (images_folder example_md) # rest)"
    by blast
  then have 4: "take 1 (trace (snd ?q)) = [Mkdir (images_folder example_md)]"
    by (auto simp: example_world_def)
  from f x 1 y n 2 g 3 4 show ?thesis by blast
qed

end
